theory Spec2Isabelle
  imports Main
begin

section \<open>Values, tables and the heap\<close>

text \<open>
  The crate of \<^verbatim>\<open>src/src/index.ts\<close> is compiled to Luau. Its state is a Luau table, and
  tables are objects: two variables may hold the same table, and \<^verbatim>\<open>===\<close> on tables
  compares identities, not contents. The model therefore keeps an explicit heap of tables.
  A value is a scalar or a reference to a table of the heap. The type \<open>'n\<close> of numbers is
  a parameter of the model: it stands for the doubles of Luau, \<open>+\<close> on it for their
  addition and \<open>\<le>\<close> for their comparison, of which nothing is assumed (the addition may
  round, overflow to infinity or yield NaN, and NaN is not below itself). Every statement
  below holds for every such type; the example crates take the integers, on small values
  of which the arithmetic of doubles is exact. \<open>VOpaque\<close>
  stands for every other value that is not a table (a function, an instance), compared by
  identity. Keys are strings, as the source takes them to be (\<^verbatim>\<open>Key as string\<close>,
  \<^verbatim>\<open>tostring(Key)\<close>).
\<close>

type_synonym key = string
type_synonym addr = nat

datatype 'n val = VNil | VBool bool | VNum 'n | VStr string | VOpaque nat | VRef addr

text \<open>
  The \<^verbatim>\<open>===\<close> of the source is the \<^verbatim>\<open>==\<close> of Luau. On two numbers it is the equality of
  doubles, which holds exactly when each is at most the other: NaN differs from itself,
  and the two zeros are equal. Two tables are equal only when they are the same table,
  \<open>VRef a = VRef b\<close>; every other value is compared by what it is.
\<close>

definition rawequal :: "'n::ord val \<Rightarrow> 'n val \<Rightarrow> bool" where
  "rawequal a b = (case (a, b) of (VNum x, VNum y) \<Rightarrow> x \<le> y \<and> y \<le> x | _ \<Rightarrow> a = b)"

text \<open>
  A table is the list of its entries in the order \<^verbatim>\<open>pairs\<close> visits them. A key that is
  absent reads as \<open>VNil\<close>, and storing \<open>VNil\<close> removes the key, as in Luau. The heap is
  the list of the tables allocated so far, and an address is a position in it. In the
  source a reference always denotes a table; \<open>cell\<close> reads an address that is not
  allocated as the empty table only to be total.
\<close>

type_synonym 'n table = "(key \<times> 'n val) list"
type_synonym 'n heap = "'n table list"

definition cell :: "'n heap \<Rightarrow> addr \<Rightarrow> 'n table" where
  "cell h a = (if a < length h then h ! a else [])"

definition tget :: "'n table \<Rightarrow> key \<Rightarrow> 'n val" where
  "tget t k = (case map_of t k of None \<Rightarrow> VNil | Some v \<Rightarrow> v)"

fun upd :: "key \<Rightarrow> 'n val \<Rightarrow> 'n table \<Rightarrow> 'n table" where
  "upd k v [] = [(k, v)]"
| "upd k v ((k', v') # t) = (if k = k' then (k, v) # t else (k', v') # upd k v t)"

definition tset :: "'n table \<Rightarrow> key \<Rightarrow> 'n val \<Rightarrow> 'n table" where
  "tset t k v = (if v = VNil then filter (\<lambda>e. fst e \<noteq> k) t else upd k v t)"

definition keys_of :: "'n table \<Rightarrow> key list" where
  "keys_of t = map fst t"

text \<open>\<open>store h a k v\<close> is the assignment \<^verbatim>\<open>a[k] = v\<close>; \<open>load h a k\<close> reads \<^verbatim>\<open>a[k]\<close>.\<close>

definition load :: "'n heap \<Rightarrow> addr \<Rightarrow> key \<Rightarrow> 'n val" where
  "load h a k = tget (cell h a) k"

definition store :: "'n heap \<Rightarrow> addr \<Rightarrow> key \<Rightarrow> 'n val \<Rightarrow> 'n heap" where
  "store h a k v = h[a := tset (cell h a) k v]"

section \<open>DeepCopy\<close>

text \<open>
  \<^verbatim>\<open>DeepCopy\<close> (index.ts, lines 4 to 15) allocates a new table and fills it entry by entry,
  copying every value that is a table recursively. On a table that contains itself the
  recursion of the source never ends (it overflows the stack), so the model carries the
  recursion depth that is left as its first argument: \<open>None\<close> is the source raising at a
  nesting deeper than that. The entries of the source table are read once, before the
  loop: the loop writes only to tables it has allocated itself.
\<close>

fun DeepCopy :: "nat \<Rightarrow> 'n heap \<Rightarrow> addr \<Rightarrow> (addr \<times> 'n heap) option"
  and copy_pairs :: "nat \<Rightarrow> 'n heap \<Rightarrow> addr \<Rightarrow> 'n table \<Rightarrow> 'n heap option"
where
  "DeepCopy 0 h Object = None"
| "DeepCopy (Suc n) h Object =
     (case copy_pairs n (h @ [[]]) (length h) (cell h Object) of
        None \<Rightarrow> None
      | Some h' \<Rightarrow> Some (length h, h'))"
| "copy_pairs n h Copy [] = Some h"
| "copy_pairs n h Copy ((Key, Val) # rest) =
     (case Val of
        VRef a \<Rightarrow>
          (case DeepCopy n h a of
             None \<Rightarrow> None
           | Some (c, h') \<Rightarrow> copy_pairs n (store h' Copy Key (VRef c)) Copy rest)
      | _ \<Rightarrow> copy_pairs n (store h Copy Key Val) Copy rest)"

section \<open>The crate\<close>

text \<open>
  A middleware is a transform of the candidate and the current value. The model takes it
  to be a function of these two values, together with the time its call takes in
  milliseconds as \<^verbatim>\<open>tick\<close> measures it; a middleware that writes to the heap or calls back
  into the crate is outside the model, and so are callbacks that do.
\<close>

type_synonym 'n middleware = "'n val \<Rightarrow> 'n val \<Rightarrow> 'n val \<times> nat"

text \<open>
  \<^verbatim>\<open>OnChange\<close> has two forms, told apart in the source by \<^verbatim>\<open>Key !== Callback\<close>: with a key
  and a callback, and with a callback alone.
\<close>

datatype subscription = Scoped key | Global

text \<open>The three messages the crate passes to \<^verbatim>\<open>Log\<close>.\<close>

datatype 'n message = AttemptedSet key "'n val" | NonInteger key | Yielding

text \<open>
  \<^verbatim>\<open>Destroy\<close> and the disconnection of a single subscriber are not modelled: every
  subscription stays connected.

  The fields of the class, the heap they point into, and three traces of what the crate
  does to its surroundings: \<open>warned\<close> lists the calls of \<^verbatim>\<open>warn\<close> (each with whether the
  text starts with the verbose tag), \<open>fired\<close> the calls of \<^verbatim>\<open>UpdateBind.Fire\<close> with their
  arguments (key, old, new), and \<open>called\<close> the calls of subscribers' callbacks: the index
  of the connection and the two arguments (new, old).
\<close>

record 'n world =
  heap :: "'n heap"
  State :: addr
  InitialState :: addr
  MiddlewareMap :: "key \<Rightarrow> 'n middleware option"
  LockedKeys :: "key set"
  IsVerbose :: bool
  Connections :: "subscription list"
  warned :: "(bool \<times> 'n message) list"
  fired :: "(key \<times> 'n val \<times> 'n val) list"
  called :: "(nat \<times> 'n val \<times> 'n val) list"

definition Log :: "'n message \<Rightarrow> bool \<Rightarrow> 'n world \<Rightarrow> 'n world" where
  "Log Msg Verbose w =
     (if \<not> Verbose \<or> IsVerbose w then w\<lparr>warned := warned w @ [(IsVerbose w, Msg)]\<rparr> else w)"

text \<open>
  \<^verbatim>\<open>ExecuteMiddleware\<close>: without a middleware for the key the result is the candidate and
  no time passes between the two readings of the clock.
\<close>

definition ExecuteMiddleware :: "key \<Rightarrow> 'n val \<Rightarrow> 'n val \<Rightarrow> 'n world \<Rightarrow> 'n val \<times> 'n world" where
  "ExecuteMiddleware Key New Old w =
     (let (Result, elapsed) =
            (case MiddlewareMap w Key of Some Method \<Rightarrow> Method New Old | None \<Rightarrow> (New, 0))
      in (Result, if elapsed > 200 then Log Yielding False w else w))"

definition Verbose :: "'n world \<Rightarrow> 'n world" where
  "Verbose w = w\<lparr>IsVerbose := True\<rparr>"

definition Middleware :: "key \<Rightarrow> 'n middleware \<Rightarrow> 'n world \<Rightarrow> 'n world" where
  "Middleware Key m w = w\<lparr>MiddlewareMap := (MiddlewareMap w)(Key := Some m)\<rparr>"

subsection \<open>Notification\<close>

text \<open>
  The function that \<^verbatim>\<open>OnChange\<close> connects to the event (lines 117 to 125), for the
  connection with index \<open>i\<close>, run on the arguments of a \<^verbatim>\<open>Fire\<close>.
\<close>

definition Listener ::
  "nat \<Rightarrow> nat \<times> subscription \<Rightarrow> key \<Rightarrow> 'n val \<Rightarrow> 'n val \<Rightarrow> 'n world \<Rightarrow> 'n world option" where
  "Listener fuel c K Old New w =
     (case snd c of
        Scoped Key \<Rightarrow>
          Some (if Key = K then w\<lparr>called := called w @ [(fst c, New, Old)]\<rparr> else w)
      | Global \<Rightarrow>
          (case DeepCopy fuel (heap w) (State w) of
             None \<Rightarrow> None
           | Some (OldCopy, h1) \<Rightarrow>
               (case DeepCopy fuel (store h1 OldCopy K Old) (State w) of
                  None \<Rightarrow> None
                | Some (NewCopy, h2) \<Rightarrow>
                    Some (w\<lparr>heap := h2,
                            called := called w @ [(fst c, VRef NewCopy, VRef OldCopy)]\<rparr>))))"

text \<open>
  Modelled from the spec: the event bus (the platform's \<^verbatim>\<open>BindableEvent\<close>) is not part of
  the repository. The spec gives its interface: \<^verbatim>\<open>fire\<close> runs every connected callback
  synchronously, in connection order, on the caller's stack.
\<close>

fun deliver :: "nat \<Rightarrow> (nat \<times> subscription) list \<Rightarrow> key \<Rightarrow> 'n val \<Rightarrow> 'n val \<Rightarrow> 'n world \<Rightarrow> 'n world option"
where
  "deliver fuel [] K Old New w = Some w"
| "deliver fuel (c # cs) K Old New w =
     (case Listener fuel c K Old New w of
        None \<Rightarrow> None
      | Some w' \<Rightarrow> deliver fuel cs K Old New w')"

definition Fire :: "nat \<Rightarrow> key \<Rightarrow> 'n val \<Rightarrow> 'n val \<Rightarrow> 'n world \<Rightarrow> 'n world option" where
  "Fire fuel K Old New w =
     deliver fuel (enumerate 0 (Connections w)) K Old New (w\<lparr>fired := fired w @ [(K, Old, New)]\<rparr>)"

definition OnChange :: "subscription \<Rightarrow> 'n world \<Rightarrow> nat \<times> 'n world" where
  "OnChange s w = (length (Connections w), w\<lparr>Connections := Connections w @ [s]\<rparr>)"

subsection \<open>Update and Increment\<close>

text \<open>
  \<^verbatim>\<open>Update\<close> with a key (the \<^verbatim>\<open>else\<close> branch of lines 155 to 176). The result is the value
  the call returns and the world after it; the bare \<^verbatim>\<open>return\<close> of the locked branch
  returns \<^verbatim>\<open>undefined\<close>, which is \<open>VNil\<close>.
\<close>

definition Update :: "nat \<Rightarrow> key \<Rightarrow> 'n::ord val \<Rightarrow> 'n world \<Rightarrow> ('n val \<times> 'n world) option" where
  "Update fuel Key Value w =
     (if Key \<in> LockedKeys w then Some (VNil, Log (AttemptedSet Key Value) True w)
      else
        let Old = load (heap w) (State w) Key;
            (Result, w1) = ExecuteMiddleware Key Value Old w
        in if rawequal Result Old then Some (Old, w1)
           else
             (case Fire fuel Key Old Result (w1\<lparr>heap := store (heap w1) (State w1) Key Result\<rparr>) of
                None \<Rightarrow> None
              | Some w2 \<Rightarrow> Some (Old, w2)))"

text \<open>\<^verbatim>\<open>Update\<close> with a table of entries: one \<^verbatim>\<open>Update\<close> for each, in the order of \<^verbatim>\<open>pairs\<close>.\<close>

fun update_pairs :: "nat \<Rightarrow> 'n::ord table \<Rightarrow> 'n world \<Rightarrow> 'n world option" where
  "update_pairs fuel [] w = Some w"
| "update_pairs fuel ((K, V) # rest) w =
     (case Update fuel K V w of
        None \<Rightarrow> None
      | Some (r, w') \<Rightarrow> update_pairs fuel rest w')"

definition UpdateTable :: "nat \<Rightarrow> addr \<Rightarrow> 'n::ord world \<Rightarrow> 'n world option" where
  "UpdateTable fuel Dispatch w = update_pairs fuel (cell (heap w) Dispatch) w"

text \<open>
  \<^verbatim>\<open>Increment\<close> (lines 183 to 199). The sum is the addition of the numbers, whatever it
  yields; every number, NaN too, passes \<^verbatim>\<open>typeIs(.., "number")\<close>, and no other value does.
\<close>

definition Increment :: "nat \<Rightarrow> key \<Rightarrow> 'n::plus \<Rightarrow> 'n world \<Rightarrow> ('n val \<times> 'n world) option" where
  "Increment fuel Key Amount w =
     (if Key \<in> LockedKeys w then Some (load (heap w) (State w) Key, w)
      else
        (case load (heap w) (State w) Key of
           VNum n \<Rightarrow>
             (let Old = VNum n;
                  New = VNum (n + Amount);
                  (Result, w1) = ExecuteMiddleware Key New Old w
              in case Fire fuel Key Old Result
                        (w1\<lparr>heap := store (heap w1) (State w1) Key Result\<rparr>) of
                   None \<Rightarrow> None
                 | Some w2 \<Rightarrow> Some (Old, w2))
         | v \<Rightarrow> Some (v, Log (NonInteger Key) True w)))"

subsection \<open>Get, locks, baseline\<close>

definition Get :: "nat \<Rightarrow> key option \<Rightarrow> 'n world \<Rightarrow> ('n val \<times> 'n world) option" where
  "Get fuel Key w =
     (case Key of
        Some k \<Rightarrow> Some (load (heap w) (State w) k, w)
      | None \<Rightarrow>
          (case DeepCopy fuel (heap w) (State w) of
             None \<Rightarrow> None
           | Some (c, h') \<Rightarrow> Some (VRef c, w\<lparr>heap := h'\<rparr>)))"

definition Unlock :: "key option \<Rightarrow> 'n world \<Rightarrow> 'n world" where
  "Unlock Key w =
     (case Key of
        Some k \<Rightarrow> w\<lparr>LockedKeys := LockedKeys w - {k}\<rparr>
      | None \<Rightarrow>
          w\<lparr>LockedKeys := fold (\<lambda>k L. L - {k}) (keys_of (cell (heap w) (State w))) (LockedKeys w)\<rparr>)"

definition Lock :: "key option \<Rightarrow> 'n world \<Rightarrow> 'n world" where
  "Lock Key w =
     (case Key of
        Some k \<Rightarrow> w\<lparr>LockedKeys := insert k (LockedKeys w)\<rparr>
      | None \<Rightarrow>
          w\<lparr>LockedKeys := fold insert (keys_of (cell (heap w) (State w))) (LockedKeys w)\<rparr>)"

fun all_locked :: "key set \<Rightarrow> key list \<Rightarrow> bool" where
  "all_locked L [] = True"
| "all_locked L (k # ks) = (if k \<notin> L then False else all_locked L ks)"

definition IsLocked :: "key option \<Rightarrow> 'n world \<Rightarrow> bool" where
  "IsLocked Key w =
     (case Key of
        Some k \<Rightarrow> k \<in> LockedKeys w
      | None \<Rightarrow> all_locked (LockedKeys w) (keys_of (cell (heap w) (State w))))"

definition Reset :: "nat \<Rightarrow> key \<Rightarrow> 'n::ord world \<Rightarrow> 'n world option" where
  "Reset fuel Key w =
     (case Update fuel Key (load (heap w) (InitialState w) Key) w of
        None \<Rightarrow> None
      | Some (r, w') \<Rightarrow> Some w')"

definition Restore :: "nat \<Rightarrow> 'n world \<Rightarrow> 'n world option" where
  "Restore fuel w =
     (case DeepCopy fuel (heap w) (InitialState w) of
        None \<Rightarrow> None
      | Some (c, h') \<Rightarrow> Some (w\<lparr>heap := h', State := c\<rparr>))"

definition Snapshot :: "nat \<Rightarrow> 'n world \<Rightarrow> 'n world option" where
  "Snapshot fuel w =
     (case DeepCopy fuel (heap w) (State w) of
        None \<Rightarrow> None
      | Some (c, h') \<Rightarrow> Some (w\<lparr>heap := h', InitialState := c\<rparr>))"

definition Overwrite :: "addr \<Rightarrow> 'n world \<Rightarrow> 'n world" where
  "Overwrite S w = w\<lparr>State := S\<rparr>"

text \<open>
  The constructor: the crate keeps the caller's table as its state, without copying it,
  and a deep copy of it as the baseline; \<^verbatim>\<open>Closed\<close> locks every key.
\<close>

definition new_Crate :: "nat \<Rightarrow> 'n heap \<Rightarrow> addr \<Rightarrow> bool \<Rightarrow> 'n world option" where
  "new_Crate fuel h Initial Closed =
     (case DeepCopy fuel h Initial of
        None \<Rightarrow> None
      | Some (c, h') \<Rightarrow>
          (let w = \<lparr>heap = h', State = Initial, InitialState = c,
                    MiddlewareMap = (\<lambda>k. None), LockedKeys = {}, IsVerbose = False,
                    Connections = [], warned = [], fired = [], called = []\<rparr>
           in Some (if Closed then Lock None w else w)))"

section \<open>Abstract values\<close>

text \<open>
  What a value of the heap stands for, once the sharing is forgotten: a scalar or a table
  of such values. \<open>repr A h v t\<close> holds when \<open>v\<close> in heap \<open>h\<close> unfolds to the finite tree
  \<open>t\<close>, reading only tables whose addresses are in \<open>A\<close>; each table on the way has distinct
  keys and stores no \<open>VNil\<close>. A value that reaches itself has no such tree. Two values
  with the same tree are structurally equal; a value with a tree inside \<open>A\<close> cannot be
  changed by a write outside \<open>A\<close>.
\<close>

datatype 'n tval = Leaf "'n val" | Node "(key \<times> 'n tval) list"

fun repr :: "addr set \<Rightarrow> 'n heap \<Rightarrow> 'n val \<Rightarrow> 'n tval \<Rightarrow> bool"
  and repr_pairs :: "addr set \<Rightarrow> 'n heap \<Rightarrow> 'n table \<Rightarrow> (key \<times> 'n tval) list \<Rightarrow> bool"
where
  "repr A h v (Leaf u) = (v = u \<and> (case v of VRef a \<Rightarrow> False | _ \<Rightarrow> True))"
| "repr A h v (Node ts) =
     (case v of
        VRef a \<Rightarrow> a \<in> A \<and> a < length h \<and> distinct (map fst ts) \<and> repr_pairs A h (h ! a) ts
      | _ \<Rightarrow> False)"
| "repr_pairs A h [] [] = True"
| "repr_pairs A h ((k, v) # kvs) ((k', t) # ts) =
     (k = k' \<and> v \<noteq> VNil \<and> repr A h v t \<and> repr_pairs A h kvs ts)"
| "repr_pairs A h [] (x # ts) = False"
| "repr_pairs A h (e # kvs) [] = False"

fun depth :: "'n tval \<Rightarrow> nat" and depths :: "(key \<times> 'n tval) list \<Rightarrow> nat" where
  "depth (Leaf v) = 0"
| "depth (Node ts) = Suc (depths ts)"
| "depths [] = 0"
| "depths ((k, t) # ts) = max (depth t) (depths ts)"

text \<open>The state of the crate is the tree \<open>t\<close>, nested no deeper than \<open>fuel\<close>.\<close>

definition tree_state :: "nat \<Rightarrow> 'n world \<Rightarrow> 'n tval \<Rightarrow> bool" where
  "tree_state fuel w t = (repr UNIV (heap w) (VRef (State w)) t \<and> depth t \<le> fuel)"

text \<open>
  A notification can be delivered: when a whole-store subscriber is connected, its
  listener copies the state, which must then be a tree within the recursion depth.
\<close>

definition notifiable :: "nat \<Rightarrow> 'n world \<Rightarrow> bool" where
  "notifiable fuel w =
     (Global \<in> set (Connections w) \<longrightarrow>
        (\<exists>t. repr UNIV (heap w) (VRef (State w)) t \<and> depth t \<le> fuel))"

text \<open>The subtree under a key; an absent key reads as \<open>VNil\<close>.\<close>

definition tsub :: "(key \<times> 'n tval) list \<Rightarrow> key \<Rightarrow> 'n tval" where
  "tsub ts k = (case map_of ts k of None \<Rightarrow> Leaf VNil | Some t \<Rightarrow> t)"

text \<open>
  What a whole-store subscriber is handed for a change of key \<open>K\<close> from \<open>Old\<close>, when the
  state is the tree \<open>t\<close> and the heap had \<open>n0\<close> tables when the notification started: two
  different tables allocated since. Table \<open>a\<close> (after) has the tree of the state and is
  made of tables allocated since only; table \<open>b\<close> (before) holds \<open>Old\<close> itself under \<open>K\<close>;
  and under every other key the two tables hold values with the same tree, made of
  tables allocated since.
\<close>

definition snapshots ::
  "nat \<Rightarrow> 'n heap \<Rightarrow> key \<Rightarrow> 'n val \<Rightarrow> 'n tval \<Rightarrow> addr \<Rightarrow> addr \<Rightarrow> bool" where
  "snapshots n0 h K Old t a b =
     (a \<noteq> b \<and> n0 \<le> b \<and> b < length h \<and> repr {n0..<length h} h (VRef a) t \<and>
      load h b K = Old \<and>
      (\<forall>k. k \<noteq> K \<longrightarrow>
         (\<exists>u. repr {n0..<length h} h (load h a k) u \<and> repr {n0..<length h} h (load h b k) u)))"

text \<open>
  What the callback of connection \<open>i\<close>, made for subscription \<open>s\<close>, is called with by a
  notification of key \<open>K\<close> with values \<open>Old\<close> and \<open>New\<close> that starts in heap \<open>h0\<close> with the
  state table \<open>st\<close> and ends in heap \<open>h\<close>, where \<open>new\<close> lists the calls that the
  notification makes, each with its connection. A connection for key \<open>k\<close> is called once,
  with \<open>New\<close> and \<open>Old\<close>, when \<open>k\<close> is \<open>K\<close>, and not at all otherwise. A whole-store
  connection is called once, with the two snapshots of the state.
\<close>

definition invoked ::
  "subscription \<Rightarrow> nat \<Rightarrow> key \<Rightarrow> 'n val \<Rightarrow> 'n val \<Rightarrow> 'n heap \<Rightarrow> addr \<Rightarrow> 'n heap \<Rightarrow>
     (nat \<times> 'n val \<times> 'n val) list \<Rightarrow> bool" where
  "invoked s i K Old New h0 st h new =
     (case s of
        Scoped k \<Rightarrow> filter (\<lambda>e. fst e = i) new = (if k = K then [(i, New, Old)] else [])
      | Global \<Rightarrow>
          (\<exists>t a b. repr UNIV h0 (VRef st) t \<and>
             filter (\<lambda>e. fst e = i) new = [(i, VRef a, VRef b)] \<and>
             snapshots (length h0) h K Old t a b))"

section \<open>Sequences of operations\<close>

text \<open>
  What a caller may do to a crate between a \<^verbatim>\<open>Snapshot\<close> and a \<^verbatim>\<open>Restore\<close>: call any
  other method of the crate, create a table (\<open>OpNew\<close>), and assign to a field of a table
  it holds a reference to (\<open>OpWrite\<close>), such as the table that \<^verbatim>\<open>Get(k)\<close> returned.
\<close>

datatype 'n op =
    OpUpdate key "'n val"
  | OpUpdateTable addr
  | OpIncrement key 'n
  | OpReset key
  | OpLock "key option"
  | OpUnlock "key option"
  | OpMiddleware key "'n middleware"
  | OpOnChange subscription
  | OpVerbose
  | OpGet "key option"
  | OpRestore
  | OpOverwrite addr
  | OpNew "'n table"
  | OpWrite addr key "'n val"

fun apply_op :: "nat \<Rightarrow> 'n::{plus,ord} op \<Rightarrow> 'n world \<Rightarrow> 'n world option" where
  "apply_op fuel (OpUpdate k v) w = map_option snd (Update fuel k v w)"
| "apply_op fuel (OpUpdateTable a) w = UpdateTable fuel a w"
| "apply_op fuel (OpIncrement k n) w = map_option snd (Increment fuel k n w)"
| "apply_op fuel (OpReset k) w = Reset fuel k w"
| "apply_op fuel (OpLock K) w = Some (Lock K w)"
| "apply_op fuel (OpUnlock K) w = Some (Unlock K w)"
| "apply_op fuel (OpMiddleware k m) w = Some (Middleware k m w)"
| "apply_op fuel (OpOnChange s) w = Some (snd (OnChange s w))"
| "apply_op fuel OpVerbose w = Some (Verbose w)"
| "apply_op fuel (OpGet K) w = map_option snd (Get fuel K w)"
| "apply_op fuel OpRestore w = Restore fuel w"
| "apply_op fuel (OpOverwrite a) w = Some (Overwrite a w)"
| "apply_op fuel (OpNew t) w = Some (w\<lparr>heap := heap w @ [t]\<rparr>)"
| "apply_op fuel (OpWrite a k v) w = Some (w\<lparr>heap := store (heap w) a k v\<rparr>)"

fun run :: "nat \<Rightarrow> 'n::{plus,ord} op list \<Rightarrow> 'n world \<Rightarrow> 'n world option" where
  "run fuel [] w = Some w"
| "run fuel (x # xs) w =
     (case apply_op fuel x w of None \<Rightarrow> None | Some w' \<Rightarrow> run fuel xs w')"

text \<open>
  The operation neither makes a table of \<open>B\<close> the state table nor assigns to a field of
  a table of \<open>B\<close>.
\<close>

fun avoids :: "addr set \<Rightarrow> 'n op \<Rightarrow> bool" where
  "avoids B (OpOverwrite a) = (a \<notin> B)"
| "avoids B (OpWrite a k v) = (a \<notin> B)"
| "avoids B x = True"

section \<open>Example crates\<close>

definition paul :: "int table" where
  "paul = [(''Health'', VNum 100), (''Name'', VStr ''Paul'')]"

text \<open>\<^verbatim>\<open>new Crate({Health: 100, Name: "Paul"})\<close>, and the same crate constructed closed.\<close>

definition open_crate :: "int world" where
  "open_crate = \<lparr>heap = [paul, paul], State = 0, InitialState = 1,
     MiddlewareMap = (\<lambda>k. None), LockedKeys = {}, IsVerbose = False,
     Connections = [], warned = [], fired = [], called = []\<rparr>"

definition closed_crate :: "int world" where
  "closed_crate = open_crate\<lparr>LockedKeys := {''Name'', ''Health''}\<rparr>"

text \<open>The open crate, with one more table \<^verbatim>\<open>{Score: 0}\<close> in the heap.\<close>

definition score_crate :: "int world" where
  "score_crate = open_crate\<lparr>heap := [paul, paul, [(''Score'', VNum 0)]]\<rparr>"

text \<open>
  A crate with a table among its values, as the constructor leaves it for the heap of the
  first three tables (the third is a table of the caller's with the contents of the
  second), then given a middleware that clamps \<^verbatim>\<open>Gold\<close> to the range from 0 to 10, a
  subscriber to \<^verbatim>\<open>Inv\<close> and a whole-store subscriber.
\<close>

definition bag :: "int table" where
  "bag = [(''n'', VNum 1)]"

definition inv_heap :: "int heap" where
  "inv_heap = [[(''Gold'', VNum 10), (''Inv'', VRef 1)], bag, bag,
               [(''Gold'', VNum 10), (''Inv'', VRef 4)], bag]"

definition clamp_mw :: "int middleware" where
  "clamp_mw New Old = (case New of VNum n \<Rightarrow> (VNum (max 0 (min 10 n)), 0) | v \<Rightarrow> (v, 0))"

definition inv_crate :: "int world" where
  "inv_crate = \<lparr>heap = inv_heap, State = 0, InitialState = 3,
     MiddlewareMap = (\<lambda>k. None)(''Gold'' := Some clamp_mw), LockedKeys = {},
     IsVerbose = False, Connections = [Scoped ''Inv'', Global],
     warned = [], fired = [], called = []\<rparr>"

definition inv_tree :: "int tval" where
  "inv_tree = Node [(''Gold'', Leaf (VNum 10)), (''Inv'', Node [(''n'', Leaf (VNum 1))])]"

text \<open>
  The same crate before anybody has subscribed, and after the first subscription only.
\<close>

definition bare_crate :: "int world" where
  "bare_crate = inv_crate\<lparr>Connections := []\<rparr>"

definition half_crate :: "int world" where
  "half_crate = inv_crate\<lparr>Connections := [Scoped ''Inv'']\<rparr>"

text \<open>The same crate later: \<^verbatim>\<open>Gold\<close> is 3 in the state and 50 in the baseline.\<close>

definition reset_crate :: "int world" where
  "reset_crate = inv_crate\<lparr>heap := [[(''Gold'', VNum 3), (''Inv'', VRef 1)], bag, bag,
                                      [(''Gold'', VNum 50), (''Inv'', VRef 4)], bag]\<rparr>"

text \<open>
  That crate without subscribers, and what becomes of it when the caller runs
  \<^verbatim>\<open>Snapshot()\<close>, then \<^verbatim>\<open>Reset("Inv")\<close> and \<^verbatim>\<open>Get("Inv").n = 7\<close>, then \<^verbatim>\<open>Restore()\<close>.
\<close>

definition quiet_crate :: "int world" where
  "quiet_crate = reset_crate\<lparr>Connections := []\<rparr>"

definition quiet_tree :: "int tval" where
  "quiet_tree = Node [(''Gold'', Leaf (VNum 3)), (''Inv'', Node [(''n'', Leaf (VNum 1))])]"

definition snap_crate :: "int world" where
  "snap_crate = quiet_crate\<lparr>heap := heap quiet_crate @ [[(''Gold'', VNum 3), (''Inv'', VRef 6)], bag],
                             InitialState := 5\<rparr>"

definition leak_crate :: "int world" where
  "leak_crate = snap_crate\<lparr>heap := [[(''Gold'', VNum 3), (''Inv'', VRef 6)], bag, bag,
                                     [(''Gold'', VNum 50), (''Inv'', VRef 4)], bag,
                                     [(''Gold'', VNum 3), (''Inv'', VRef 6)], [(''n'', VNum 7)]],
                            fired := [(''Inv'', VRef 1, VRef 6)]\<rparr>"

definition restored_crate :: "int world" where
  "restored_crate = leak_crate\<lparr>heap := heap leak_crate @ [[(''Gold'', VNum 3), (''Inv'', VRef 8)],
                                                            [(''n'', VNum 7)]],
                                State := 7\<rparr>"


section \<open>Properties of the heap and of DeepCopy\<close>

text \<open>Where the comparison of numbers is an order, \<^verbatim>\<open>==\<close> is equality.\<close>

lemma rawequal_order [simp]: "rawequal (a :: 'n::order val) b = (a = b)"
  by (cases a; cases b) (auto simp: rawequal_def)

lemma rawequal_VNum: "rawequal (VNum x) (VNum y) = (x \<le> y \<and> y \<le> x)"
  by (simp add: rawequal_def)

lemma rawequal_VRef: "rawequal (VRef a) v = (v = VRef a)" "rawequal v (VRef a) = (v = VRef a)"
  by (cases v; auto simp: rawequal_def)+


lemma repr_frame:
  "(\<forall>a\<in>A. a < length h \<longrightarrow> h' ! a = h ! a) \<Longrightarrow> length h \<le> length h' \<Longrightarrow> repr A h v t \<Longrightarrow> repr A h' v t"
  "(\<forall>a\<in>A. a < length h \<longrightarrow> h' ! a = h ! a) \<Longrightarrow> length h \<le> length h' \<Longrightarrow> repr_pairs A h kvs ts \<Longrightarrow> repr_pairs A h' kvs ts"
  by (induction A h v t and A h kvs ts rule: repr_repr_pairs.induct) (auto split: val.splits)

lemma repr_mono:
  "A \<subseteq> B \<Longrightarrow> repr A h v t \<Longrightarrow> repr B h v t"
  "A \<subseteq> B \<Longrightarrow> repr_pairs A h kvs ts \<Longrightarrow> repr_pairs B h kvs ts"
  by (induction A h v t and A h kvs ts rule: repr_repr_pairs.induct) (auto split: val.splits)

lemma repr_bound:
  "repr A h v t \<Longrightarrow> repr (A \<inter> {..<length h}) h v t"
  "repr_pairs A h kvs ts \<Longrightarrow> repr_pairs (A \<inter> {..<length h}) h kvs ts"
  by (induction A h v t and A h kvs ts rule: repr_repr_pairs.induct) (auto split: val.splits)

lemma repr_pairs_keys: "repr_pairs A h kvs ts \<Longrightarrow> map fst kvs = map fst ts"
proof (induction kvs arbitrary: ts)
  case Nil then show ?case by (cases ts) auto
next
  case (Cons e kvs) then show ?case by (cases ts; cases e) auto
qed

lemma length_store [simp]: "length (store h a k v) = length h"
  by (simp add: store_def)

lemma nth_store_other: "i \<noteq> a \<Longrightarrow> store h a k v ! i = h ! i"
  by (simp add: store_def)

lemma nth_store:
  "store h a k v ! i = (if i = a \<and> a < length h then tset (h ! a) k v else h ! i)"
  by (cases "a < length h") (auto simp: store_def cell_def list_update_beyond)

lemma DeepCopy_frame:
  "DeepCopy n h Object = Some (c, h') \<Longrightarrow>
     c = length h \<and> length h < length h' \<and> (\<forall>i<length h. h' ! i = h ! i)"
  "copy_pairs n h Copy kvs = Some h' \<Longrightarrow>
     length h \<le> length h' \<and> (\<forall>i<length h. i \<noteq> Copy \<longrightarrow> h' ! i = h ! i)"
proof (induction n h Object and n h Copy kvs arbitrary: c h' and h' rule: DeepCopy_copy_pairs.induct)
  case (1 h Object)
  then show ?case by simp
next
  case (2 n h Object)
  from "2.prems" obtain h1 where cp: "copy_pairs n (h @ [[]]) (length h) (cell h Object) = Some h1"
    and eq: "c = length h" "h' = h1"
    by (auto split: option.splits)
  from "2.IH"[OF cp] show ?case using eq by (auto simp: nth_append)
next
  case (3 n h Copy)
  then show ?case by simp
next
  case (4 n h Copy Key Val rest)
  show ?case
  proof (cases Val)
    case (VRef a)
    with "4.prems" obtain c1 h1 where dc: "DeepCopy n h a = Some (c1, h1)"
      and cp: "copy_pairs n (store h1 Copy Key (VRef c1)) Copy rest = Some h'"
      by (auto split: option.splits)
    from "4.IH"(6)[OF VRef dc] have f1: "length h < length h1" "\<forall>i<length h. h1 ! i = h ! i" by auto
    from "4.IH"(7)[OF VRef dc refl cp]
    have f2: "length h1 \<le> length h'" "\<forall>i<length h1. i \<noteq> Copy \<longrightarrow> h' ! i = store h1 Copy Key (VRef c1) ! i"
      by auto
    show ?thesis using f1 f2 by (auto simp: nth_store_other)
  qed (use "4.prems" "4.IH" in \<open>auto simp: nth_store_other\<close>)
qed


lemma upd_fresh: "k \<notin> fst ` set t \<Longrightarrow> upd k v t = t @ [(k, v)]"
  by (induction t) auto

lemma tset_fresh: "k \<notin> fst ` set t \<Longrightarrow> v \<noteq> VNil \<Longrightarrow> tset t k v = t @ [(k, v)]"
  by (simp add: tset_def upd_fresh)

lemma store_fresh:
  "a < length h \<Longrightarrow> k \<notin> fst ` set (h ! a) \<Longrightarrow> v \<noteq> VNil \<Longrightarrow> store h a k v ! a = h ! a @ [(k, v)]"
  by (simp add: store_def cell_def tset_fresh)

lemma repr_scalar: "\<nexists>a. v = VRef a \<Longrightarrow> repr A h v t \<Longrightarrow> repr B h' v t"
  by (cases t; cases v) auto

lemma copy_pairs_step:
  assumes src: "repr_pairs A h2 rest ts'"
    and rec: "\<exists>h' new. copy_pairs n h2 Copy rest = Some h' \<and> h' ! Copy = h2 ! Copy @ new \<and>
               repr_pairs {Copy<..<length h'} h' new ts'"
    and h2: "h2 ! Copy = acc @ [(Key, v')]" "Copy < length h2"
    and v': "v' \<noteq> VNil" "repr {Copy<..<length h2} h2 v' t0"
  shows "\<exists>h' new. copy_pairs n h2 Copy rest = Some h' \<and> h' ! Copy = acc @ new \<and>
               repr_pairs {Copy<..<length h'} h' new ((Key, t0) # ts')"
proof -
  from rec obtain h' new where cp: "copy_pairs n h2 Copy rest = Some h'"
    and c: "h' ! Copy = h2 ! Copy @ new" and r: "repr_pairs {Copy<..<length h'} h' new ts'"
    by blast
  from DeepCopy_frame(2)[OF cp] have fr: "length h2 \<le> length h'"
    "\<forall>i<length h2. i \<noteq> Copy \<longrightarrow> h' ! i = h2 ! i" by auto
  have "repr {Copy<..<length h2} h' v' t0"
    by (rule repr_frame(1)[OF _ fr(1) v'(2)]) (use fr(2) in auto)
  then have "repr {Copy<..<length h'} h' v' t0"
    by (rule repr_mono(1)[rotated]) (use fr(1) in auto)
  with cp c r h2 v' show ?thesis by auto
qed

lemma DeepCopy_repr:
  "repr A h (VRef Object) t \<Longrightarrow> depth t \<le> n \<Longrightarrow>
     \<exists>h'. DeepCopy n h Object = Some (length h, h') \<and>
          repr {length h..<length h'} h' (VRef (length h)) t \<and>
          (\<exists>ts. t = Node ts \<and> repr_pairs {length h<..<length h'} h' (h' ! length h) ts)"
  "repr_pairs A h kvs ts \<Longrightarrow> depths ts \<le> n \<Longrightarrow> Copy < length h \<Longrightarrow> Copy \<notin> A \<Longrightarrow>
   distinct (map fst (h ! Copy) @ map fst kvs) \<Longrightarrow>
     \<exists>h' new. copy_pairs n h Copy kvs = Some h' \<and> h' ! Copy = h ! Copy @ new \<and>
          repr_pairs {Copy<..<length h'} h' new ts"
proof (induction n h Object and n h Copy kvs arbitrary: A t and A ts rule: DeepCopy_copy_pairs.induct)
  case (1 h Object)
  then show ?case by (cases t) auto
next
  case (2 n h Object)
  from "2.prems" obtain ts where t: "t = Node ts" by (cases t) auto
  with "2.prems" have obj: "Object < length h" "distinct (map fst ts)"
    and rp: "repr_pairs A h (h ! Object) ts" and d: "depths ts \<le> n" by auto
  let ?A = "A \<inter> {..<length h}"
  have rp': "repr_pairs ?A (h @ [[]]) (cell h Object) ts"
    using repr_frame(2)[OF _ _ repr_bound(2)[OF rp], of "h @ [[]]"] obj
    by (auto simp: nth_append cell_def)
  have dist: "distinct (map fst ((h @ [[]]) ! length h) @ map fst (cell h Object))"
    using repr_pairs_keys[OF rp] obj by (simp add: cell_def)
  from "2.IH"[OF rp' d _ _ dist]
  obtain h' new where cp: "copy_pairs n (h @ [[]]) (length h) (cell h Object) = Some h'"
    and c: "h' ! length h = new" and r: "repr_pairs {length h<..<length h'} h' new ts"
    by auto
  from DeepCopy_frame(2)[OF cp] have len: "length h < length h'" by simp
  have sub: "{length h<..<length h'} \<subseteq> {length h..<length h'}" by auto
  have "repr_pairs {length h..<length h'} h' (h' ! length h) ts"
    using repr_mono(2)[OF sub r] c by simp
  with cp len obj t r c show ?case by simp
next
  case (3 n h Copy)
  then show ?case by (cases ts) auto
next
  case (4 n h Copy Key Val rest)
  from "4.prems"(1) obtain t0 ts' where ts: "ts = (Key, t0) # ts'"
    and nn: "Val \<noteq> VNil" and r0: "repr A h Val t0" and rr: "repr_pairs A h rest ts'"
    by (cases ts) auto
  from "4.prems"(2) ts have d: "depth t0 \<le> n" "depths ts' \<le> n" by auto
  from "4.prems"(5) have fresh: "Key \<notin> fst ` set (h ! Copy)"
    and dist: "distinct (map fst (h ! Copy @ [(Key, v)]) @ map fst rest)" for v
    by auto
  note Copy = "4.prems"(3,4)
  show ?case
  proof (cases "\<exists>a. Val = VRef a")
    case True
    then obtain a where V: "Val = VRef a" by blast
    from "4.IH"(6)[OF V r0[unfolded V] d(1)]
    obtain h1 where dc: "DeepCopy n h a = Some (length h, h1)"
      and rc: "repr {length h..<length h1} h1 (VRef (length h)) t0" by blast
    from DeepCopy_frame(1)[OF dc] have fr: "length h < length h1" "\<forall>i<length h. h1 ! i = h ! i"
      by auto
    let ?h2 = "store h1 Copy Key (VRef (length h))"
    have c2: "?h2 ! Copy = h ! Copy @ [(Key, VRef (length h))]"
      using store_fresh[of Copy h1 Key "VRef (length h)"] fr Copy fresh by simp
    have rr2: "repr_pairs A ?h2 rest ts'"
      by (rule repr_frame(2)[OF _ _ rr]) (use fr Copy in \<open>auto simp: nth_store\<close>)
    have rc2: "repr {Copy<..<length ?h2} ?h2 (VRef (length h)) t0"
      apply (rule repr_mono(1)[of "{length h..<length h1}"])
      using Copy apply auto[1]
      apply (rule repr_frame(1)[OF _ _ rc])
      using Copy by (auto simp: nth_store)
    have "\<exists>h' new. copy_pairs n ?h2 Copy rest = Some h' \<and> h' ! Copy = ?h2 ! Copy @ new \<and>
               repr_pairs {Copy<..<length h'} h' new ts'"
      by (rule "4.IH"(7)[OF V dc refl rr2 d(2)]) (use Copy fr c2 dist in auto)
    from copy_pairs_step[OF rr2 this c2 _ _ rc2] Copy fr
    show ?thesis using V dc ts by auto
  next
    case False
    let ?h2 = "store h Copy Key Val"
    from False r0 have t0: "repr {Copy<..<length ?h2} ?h2 Val t0" by (rule repr_scalar)
    have c2: "?h2 ! Copy = h ! Copy @ [(Key, Val)]"
      using store_fresh[of Copy h Key Val] Copy fresh nn by simp
    have rr2: "repr_pairs A ?h2 rest ts'"
      by (rule repr_frame(2)[OF _ _ rr]) (use Copy in \<open>auto simp: nth_store\<close>)
    have "\<exists>h' new. copy_pairs n ?h2 Copy rest = Some h' \<and> h' ! Copy = ?h2 ! Copy @ new \<and>
               repr_pairs {Copy<..<length h'} h' new ts'"
      using False nn "4.IH"(1-5)[OF _ rr2 d(2)] Copy c2 dist
      by (cases Val) auto
    from copy_pairs_step[OF rr2 this c2 _ nn t0] Copy
    show ?thesis using False nn ts by (cases Val) auto
  qed
qed


lemma tget_tset_same: "tget (tset t k v) k = v"
proof (cases "v = VNil")
  case True
  have "map_of (filter (\<lambda>e. fst e \<noteq> k) t) k = None"
    by (induction t) auto
  with True show ?thesis by (simp add: tget_def tset_def)
next
  case False
  have "map_of (upd k v t) k = Some v" by (induction t) auto
  with False show ?thesis by (simp add: tget_def tset_def)
qed

lemma tget_tset_other: "k' \<noteq> k \<Longrightarrow> tget (tset t k v) k' = tget t k'"
proof -
  assume ne: "k' \<noteq> k"
  have a: "map_of (filter (\<lambda>e. fst e \<noteq> k) t) k' = map_of t k'"
    using ne by (induction t) auto
  have b: "map_of (upd k v t) k' = map_of t k'"
    using ne by (induction t) auto
  show ?thesis by (simp add: tget_def tset_def a b)
qed

lemma load_store_same: "a < length h \<Longrightarrow> load (store h a k v) a k = v"
  by (simp add: load_def store_def cell_def tget_tset_same)

lemma load_store_other: "k' \<noteq> k \<Longrightarrow> load (store h a k v) a k' = load h a k'"
  by (cases "a < length h") (simp_all add: load_def store_def cell_def tget_tset_other list_update_beyond)

lemma load_store_cell: "b \<noteq> a \<Longrightarrow> load (store h a k v) b k' = load h b k'"
  by (simp add: load_def store_def cell_def)

lemma load_frame: "a < length h \<Longrightarrow> length h \<le> length h' \<Longrightarrow> h' ! a = h ! a \<Longrightarrow> load h' a k = load h a k"
  by (simp add: load_def cell_def)

lemma repr_extend:
  assumes "repr A h v t" "length h \<le> length h'" "\<forall>i<length h. h' ! i = h ! i"
  shows "repr A h' v t"
  by (rule repr_frame(1)[OF _ assms(2) assms(1)]) (use assms(3) in auto)

lemma repr_store_fresh:
  assumes "repr A h v t" "length h \<le> length h1" "\<forall>i<length h. h1 ! i = h ! i" "length h \<le> a"
  shows "repr A (store h1 a k x) v t"
proof -
  have "repr (A \<inter> {..<length h}) h v t" by (rule repr_bound(1)[OF assms(1)])
  then have "repr (A \<inter> {..<length h}) (store h1 a k x) v t"
    by (rule repr_frame(1)[rotated 2]) (use assms in \<open>auto simp: nth_store\<close>)
  then show ?thesis by (rule repr_mono(1)[rotated]) auto
qed

lemma Listener_frame:
  assumes "Listener fuel c K Old New w = Some w'"
  shows "w' = w\<lparr>heap := heap w', called := called w'\<rparr>"
    and "length (heap w) \<le> length (heap w')"
    and "\<forall>i<length (heap w). heap w' ! i = heap w ! i"
    and "\<exists>new. called w' = called w @ new \<and> (\<forall>e\<in>set new. fst e = fst c)"
proof -
  show "w' = w\<lparr>heap := heap w', called := called w'\<rparr>"
    using assms by (auto simp: Listener_def split: subscription.splits option.splits if_splits)
  show "\<exists>new. called w' = called w @ new \<and> (\<forall>e\<in>set new. fst e = fst c)"
    using assms by (auto simp: Listener_def split: subscription.splits option.splits if_splits)
  have "length (heap w) \<le> length (heap w') \<and> (\<forall>i<length (heap w). heap w' ! i = heap w ! i)"
  proof (cases "snd c")
    case (Scoped k)
    with assms show ?thesis by (auto simp: Listener_def split: if_splits)
  next
    case Global
    with assms obtain a h1 b h2 where d1: "DeepCopy fuel (heap w) (State w) = Some (a, h1)"
      and d2: "DeepCopy fuel (store h1 a K Old) (State w) = Some (b, h2)"
      and w': "heap w' = h2"
      by (auto simp: Listener_def split: option.splits)
    from DeepCopy_frame(1)[OF d1] DeepCopy_frame(1)[OF d2] w'
    show ?thesis by (auto simp: nth_store)
  qed
  then show "length (heap w) \<le> length (heap w')" "\<forall>i<length (heap w). heap w' ! i = heap w ! i"
    by auto
qed

lemma Listener_total:
  assumes "tree_state fuel w t"
  shows "\<exists>w'. Listener fuel c K Old New w = Some w' \<and> tree_state fuel w' t"
proof (cases "snd c")
  case (Scoped k)
  with assms show ?thesis by (auto simp: Listener_def tree_state_def)
next
  case Global
  from assms have r: "repr UNIV (heap w) (VRef (State w)) t" and d: "depth t \<le> fuel"
    by (auto simp: tree_state_def)
  from DeepCopy_repr(1)[OF r d] obtain h1 where
    d1: "DeepCopy fuel (heap w) (State w) = Some (length (heap w), h1)" by blast
  from DeepCopy_frame(1)[OF d1] have f1: "length (heap w) < length h1"
    "\<forall>i<length (heap w). h1 ! i = heap w ! i" by auto
  let ?h = "store h1 (length (heap w)) K Old"
  have r1: "repr UNIV ?h (VRef (State w)) t"
    by (rule repr_store_fresh[OF r]) (use f1 in auto)
  from DeepCopy_repr(1)[OF r1 d] obtain h2 where
    d2: "DeepCopy fuel ?h (State w) = Some (length ?h, h2)" by blast
  from DeepCopy_frame(1)[OF d2] have f2: "length ?h < length h2" "\<forall>i<length ?h. h2 ! i = ?h ! i"
    by auto
  have "repr UNIV h2 (VRef (State w)) t"
    by (rule repr_extend[OF r1]) (use f2 in auto)
  with Global d1 d2 d show ?thesis by (simp add: Listener_def tree_state_def)
qed

lemma deliver_frame:
  "deliver fuel cs K Old New w = Some w' \<Longrightarrow>
     w' = w\<lparr>heap := heap w', called := called w'\<rparr> \<and>
     length (heap w) \<le> length (heap w') \<and>
     (\<forall>i<length (heap w). heap w' ! i = heap w ! i)"
proof (induction cs arbitrary: w)
  case Nil
  then show ?case by simp
next
  case (Cons c cs)
  from Cons.prems obtain w1 where l: "Listener fuel c K Old New w = Some w1"
    and d: "deliver fuel cs K Old New w1 = Some w'"
    by (auto split: option.splits)
  note f = Listener_frame[OF l]
  from Cons.IH[OF d] have g: "w' = w1\<lparr>heap := heap w', called := called w'\<rparr>"
    "length (heap w1) \<le> length (heap w')" "\<forall>i<length (heap w1). heap w' ! i = heap w1 ! i" by auto
  have "w' = w\<lparr>heap := heap w', called := called w'\<rparr>"
    by (subst g(1), subst f(1)) simp
  moreover have "length (heap w) \<le> length (heap w')" using f(2) g(2) by simp
  moreover have "\<forall>i<length (heap w). heap w' ! i = heap w ! i" using f(2,3) g(3) by auto
  ultimately show ?case by blast
qed

lemma deliver_total:
  "tree_state fuel w t \<Longrightarrow> \<exists>w'. deliver fuel cs K Old New w = Some w' \<and> tree_state fuel w' t"
proof (induction cs arbitrary: w)
  case Nil
  then show ?case by simp
next
  case (Cons c cs)
  from Listener_total[OF Cons.prems] obtain w1 where
    "Listener fuel c K Old New w = Some w1" "tree_state fuel w1 t" by blast
  with Cons.IH[of w1] show ?case by auto
qed

lemma deliver_scoped:
  "\<forall>c\<in>set cs. snd c \<noteq> Global \<Longrightarrow> \<exists>w'. deliver fuel cs K Old New w = Some w'"
proof (induction cs arbitrary: w)
  case Nil
  then show ?case by simp
next
  case (Cons c cs)
  then obtain k where "snd c = Scoped k" by (cases "snd c") auto
  then obtain w1 where "Listener fuel c K Old New w = Some w1" by (simp add: Listener_def)
  with Cons show ?case by auto
qed

lemma Fire_frame:
  assumes "Fire fuel K Old New w = Some w'"
  shows "w' = w\<lparr>heap := heap w', called := called w', fired := fired w @ [(K, Old, New)]\<rparr>"
    and "length (heap w) \<le> length (heap w')"
    and "\<forall>i<length (heap w). heap w' ! i = heap w ! i"
proof -
  let ?w = "w\<lparr>fired := fired w @ [(K, Old, New)]\<rparr>"
  from assms have d: "deliver fuel (enumerate 0 (Connections w)) K Old New ?w = Some w'"
    by (simp add: Fire_def)
  from deliver_frame[OF d] have g: "w' = ?w\<lparr>heap := heap w', called := called w'\<rparr>"
    "length (heap ?w) \<le> length (heap w')" "\<forall>i<length (heap ?w). heap w' ! i = heap ?w ! i"
    by auto
  show "w' = w\<lparr>heap := heap w', called := called w', fired := fired w @ [(K, Old, New)]\<rparr>"
    by (subst g(1)) simp
  show "length (heap w) \<le> length (heap w')" using g(2) by simp
  show "\<forall>i<length (heap w). heap w' ! i = heap w ! i" using g(3) by simp
qed

lemma Fire_total:
  assumes "notifiable fuel w"
  shows "\<exists>w'. Fire fuel K Old New w = Some w'"
proof (cases "Global \<in> set (Connections w)")
  case True
  with assms obtain t where "tree_state fuel (w\<lparr>fired := fired w @ [(K, Old, New)]\<rparr>) t"
    by (auto simp: notifiable_def tree_state_def)
  from deliver_total[OF this, of "enumerate 0 (Connections w)" K Old New]
  show ?thesis unfolding Fire_def by blast
next
  case False
  have "snd ` set (enumerate 0 (Connections w)) = set (Connections w)"
    using map_snd_enumerate[of 0 "Connections w"] by (metis set_map)
  with False have "\<forall>c\<in>set (enumerate 0 (Connections w)). snd c \<noteq> Global"
    by force
  from deliver_scoped[OF this] show ?thesis by (simp add: Fire_def)
qed

section \<open>Properties of the operations\<close>

lemma new_open: "new_Crate 1 [paul] 0 False = Some open_crate"
  by (simp add: new_Crate_def paul_def open_crate_def cell_def store_def tset_def)

lemma new_closed: "new_Crate 1 [paul] 0 True = Some closed_crate"
  by (simp add: new_Crate_def paul_def open_crate_def closed_crate_def cell_def store_def tset_def Lock_def keys_of_def)

lemma ExecuteMiddleware_world:
  "ExecuteMiddleware Key New Old w = (Result, w1) \<Longrightarrow> w1 = w\<lparr>warned := warned w1\<rparr>"
  by (auto simp: ExecuteMiddleware_def Log_def split: option.splits prod.splits if_splits)

lemma all_locked_subset: "all_locked L ks = (set ks \<subseteq> L)"
  by (induction ks) auto

lemma fold_insert_keys: "fold insert ks L = L \<union> set ks"
  by (induction ks arbitrary: L) auto

lemma fold_remove_keys: "fold (\<lambda>k L. L - {k}) ks L = L - set ks"
  by (induction ks arbitrary: L) auto

lemma Lock_all: "Lock None w = w\<lparr>LockedKeys := LockedKeys w \<union> set (keys_of (cell (heap w) (State w)))\<rparr>"
  by (simp add: Lock_def fold_insert_keys)

lemma Unlock_all: "Unlock None w = w\<lparr>LockedKeys := LockedKeys w - set (keys_of (cell (heap w) (State w)))\<rparr>"
  by (simp add: Unlock_def fold_remove_keys)

lemma IsLocked_all_subset: "IsLocked None w = (set (keys_of (cell (heap w) (State w))) \<subseteq> LockedKeys w)"
  by (simp add: IsLocked_def all_locked_subset)

text \<open>
  The locked branch of \<^verbatim>\<open>Update\<close> ends in a bare \<^verbatim>\<open>return\<close>: the call returns \<^verbatim>\<open>undefined\<close>,
  whatever the key holds. (The locked branch of \<^verbatim>\<open>Increment\<close> returns the current value.)
\<close>

lemma Update_locked_returns_nil:
  "Key \<in> LockedKeys w \<Longrightarrow> map_option fst (Update fuel Key Value w) = Some VNil"
  by (simp add: Update_def)

lemma Update_same:
  assumes "Key \<notin> LockedKeys w"
    and "ExecuteMiddleware Key Value (load (heap w) (State w) Key) w = (Result, w1)"
    and "rawequal Result (load (heap w) (State w) Key)"
  shows "Update fuel Key Value w = Some (load (heap w) (State w) Key, w1)"
  using assms by (simp add: Update_def)

lemma Update_commit:
  assumes "Key \<notin> LockedKeys w" and "State w < length (heap w)"
    and "ExecuteMiddleware Key Value (load (heap w) (State w) Key) w = (Result, w1)"
    and ne: "\<not> rawequal Result (load (heap w) (State w) Key)"
    and n: "notifiable fuel (w1\<lparr>heap := store (heap w) (State w) Key Result\<rparr>)"
  shows "\<exists>w'. Update fuel Key Value w = Some (load (heap w) (State w) Key, w') \<and>
          w' = w1\<lparr>heap := heap w', called := called w',
                  fired := fired w @ [(Key, load (heap w) (State w) Key, Result)]\<rparr> \<and>
          load (heap w') (State w') Key = Result \<and>
          (\<forall>i<length (heap w). heap w' ! i = store (heap w) (State w) Key Result ! i)"
proof -
  let ?cur = "load (heap w) (State w) Key"
  let ?c = "w1\<lparr>heap := store (heap w) (State w) Key Result\<rparr>"
  note w1 = ExecuteMiddleware_world[OF assms(3)]
  have hs: "heap w1 = heap w" "State w1 = State w" "fired w1 = fired w"
    by (subst w1, simp)+
  from Fire_total[OF n] obtain w' where f: "Fire fuel Key ?cur Result ?c = Some w'" by blast
  note fr = Fire_frame[OF f]
  have u: "Update fuel Key Value w = Some (?cur, w')"
    using assms(1,3) ne f by (simp add: Update_def hs)
  have e: "w' = w1\<lparr>heap := heap w', called := called w', fired := fired w @ [(Key, ?cur, Result)]\<rparr>"
    by (subst fr(1)) (simp add: hs)
  have st: "State w' = State w" by (subst fr(1)) (simp add: hs)
  have cells: "\<forall>i<length (heap w). heap w' ! i = store (heap w) (State w) Key Result ! i"
    using fr(3) by simp
  have "load (heap w') (State w') Key = load (store (heap w) (State w) Key Result) (State w) Key"
    unfolding st using assms(2) cells fr(2) by (intro load_frame) auto
  then have "load (heap w') (State w') Key = Result"
    using assms(2) by (simp add: load_store_same)
  with u e cells show ?thesis by blast
qed

lemma Increment_commit:
  assumes "Key \<notin> LockedKeys w" and "load (heap w) (State w) Key = VNum n"
    and "ExecuteMiddleware Key (VNum (n + Amount)) (VNum n) w = (Result, w1)"
    and "notifiable fuel (w1\<lparr>heap := store (heap w) (State w) Key Result\<rparr>)"
  shows "\<exists>w'. Increment fuel Key Amount w = Some (VNum n, w') \<and>
          w' = w1\<lparr>heap := heap w', called := called w',
                  fired := fired w @ [(Key, VNum n, Result)]\<rparr> \<and>
          w1 = w\<lparr>warned := warned w1\<rparr> \<and>
          load (heap w') (State w') Key = Result \<and>
          (\<forall>i<length (heap w). heap w' ! i = store (heap w) (State w) Key Result ! i)"
proof -
  let ?c = "w1\<lparr>heap := store (heap w) (State w) Key Result\<rparr>"
  note w1 = ExecuteMiddleware_world[OF assms(3)]
  have hs: "heap w1 = heap w" "State w1 = State w" "fired w1 = fired w"
    by (subst w1, simp)+
  have len: "State w < length (heap w)"
    using assms(2) by (cases "State w < length (heap w)") (auto simp: load_def cell_def tget_def)
  from Fire_total[OF assms(4)] obtain w' where f: "Fire fuel Key (VNum n) Result ?c = Some w'"
    by blast
  note fr = Fire_frame[OF f]
  have u: "Increment fuel Key Amount w = Some (VNum n, w')"
    using assms(1,2,3) f by (simp add: Increment_def hs)
  have e: "w' = w1\<lparr>heap := heap w', called := called w', fired := fired w @ [(Key, VNum n, Result)]\<rparr>"
    by (subst fr(1)) (simp add: hs)
  have st: "State w' = State w" by (subst fr(1)) (simp add: hs)
  have cells: "\<forall>i<length (heap w). heap w' ! i = store (heap w) (State w) Key Result ! i"
    using fr(3) by simp
  have "load (heap w') (State w') Key = load (store (heap w) (State w) Key Result) (State w) Key"
    unfolding st using len cells fr(2) by (intro load_frame) auto
  then have "load (heap w') (State w') Key = Result"
    using len by (simp add: load_store_same)
  with u e cells w1 show ?thesis by blast
qed

lemma new_inv:
  "\<exists>w. new_Crate 2 (take 3 inv_heap) 0 False = Some w \<and>
     snd (OnChange Global (snd (OnChange (Scoped ''Inv'') (Middleware ''Gold'' clamp_mw w)))) = inv_crate"
  by (simp add: new_Crate_def inv_heap_def bag_def numeral_2_eq_2 cell_def store_def tset_def
      OnChange_def Middleware_def inv_crate_def)

lemma inv_crate_tree: "repr UNIV inv_heap (VRef 0) inv_tree"
  by (simp add: inv_heap_def inv_tree_def bag_def)


lemma inv_crate_notifiable: "notifiable 2 (inv_crate\<lparr>heap := inv_heap\<rparr>)"
  unfolding notifiable_def using inv_crate_tree
  by (auto simp: inv_crate_def inv_tree_def intro!: exI[of _ inv_tree])

lemma notifiable_after_middleware:
  "ExecuteMiddleware Key New Old w = (Result, w1) \<Longrightarrow>
     notifiable fuel (w1\<lparr>heap := h\<rparr>) = notifiable fuel (w\<lparr>heap := h\<rparr>)"
  by (auto simp: ExecuteMiddleware_def Log_def notifiable_def split: option.splits prod.splits if_splits)

lemma repr_tget: "repr_pairs A h kvs ts \<Longrightarrow> repr A h (tget kvs k) (tsub ts k)"
proof (induction kvs arbitrary: ts)
  case Nil
  then show ?case by (cases ts) (auto simp: tget_def tsub_def)
next
  case (Cons e kvs)
  then obtain k0 v where e: "e = (k0, v)" by (cases e)
  with Cons.prems obtain t0 ts' where ts: "ts = (k0, t0) # ts'"
    and r: "repr A h v t0" "repr_pairs A h kvs ts'"
    by (cases ts) auto
  show ?case
  proof (cases "k = k0")
    case True
    with e ts r show ?thesis by (simp add: tget_def tsub_def)
  next
    case False
    with Cons.IH[OF r(2)] e ts show ?thesis by (simp add: tget_def tsub_def)
  qed
qed

lemma repr_ref_bound: "repr A h (VRef a) t \<Longrightarrow> a < length h"
  by (cases t) auto

lemma repr_widen:
  assumes "repr A h v t" "A \<subseteq> B" "length h \<le> length h'" "\<forall>i<length h. h' ! i = h ! i"
  shows "repr B h' v t"
  by (rule repr_mono(1)[OF assms(2)], rule repr_extend[OF assms(1,3,4)])

lemma snapshots_extend:
  assumes "snapshots n1 h K Old t a b" "n0 \<le> n1" "length h \<le> length h'"
    "\<forall>i<length h. h' ! i = h ! i"
  shows "snapshots n0 h' K Old t a b"
proof -
  let ?A = "{n1..<length h}" and ?B = "{n0..<length h'}"
  from assms(1) have ab: "a \<noteq> b" "n1 \<le> b" and ra: "repr ?A h (VRef a) t" and b: "b < length h"
    and lb: "load h b K = Old"
    and others: "\<And>k. k \<noteq> K \<Longrightarrow> \<exists>u. repr ?A h (load h a k) u \<and> repr ?A h (load h b k) u"
    by (auto simp: snapshots_def)
  have sub: "?A \<subseteq> ?B" using assms(2,3) by auto
  from repr_ref_bound[OF ra] have a: "a < length h" .
  have la: "load h' x k = load h x k" if "x < length h" for x k
    using that assms(3,4) by (intro load_frame) auto
  have "repr ?B h' (VRef a) t" by (rule repr_widen[OF ra sub assms(3,4)])
  moreover have "load h' b K = Old" using la[OF b] lb by simp
  moreover have "\<exists>u. repr ?B h' (load h' a k) u \<and> repr ?B h' (load h' b k) u" if "k \<noteq> K" for k
  proof -
    from others[OF that] obtain u where "repr ?A h (load h a k) u" "repr ?A h (load h b k) u"
      by blast
    then have "repr ?B h' (load h a k) u" "repr ?B h' (load h b k) u"
      using repr_widen[OF _ sub assms(3,4)] by blast+
    then show ?thesis using la[OF a] la[OF b] by auto
  qed
  ultimately show ?thesis using ab b assms(2,3) by (auto simp: snapshots_def)
qed

lemma Listener_scoped:
  "snd c = Scoped k \<Longrightarrow>
     Listener fuel c K Old New w =
       Some (w\<lparr>called := called w @ (if k = K then [(fst c, New, Old)] else [])\<rparr>)"
  by (simp add: Listener_def)

lemma Listener_global:
  assumes l: "Listener fuel c K Old New w = Some w'" and g: "snd c = Global"
    and t: "tree_state fuel w t"
  shows "\<exists>a b. called w' = called w @ [(fst c, VRef a, VRef b)] \<and> snapshots (length (heap w)) (heap w') K Old t a b"
proof -
  let ?h = "heap w" and ?b = "length (heap w)"
  from t have r: "repr UNIV ?h (VRef (State w)) t" and d: "depth t \<le> fuel"
    by (auto simp: tree_state_def)
  from DeepCopy_repr(1)[OF r d] obtain h1 ts where
    d1: "DeepCopy fuel ?h (State w) = Some (?b, h1)"
    and tn: "t = Node ts"
    and p1: "repr_pairs {?b<..<length h1} h1 (h1 ! ?b) ts"
    by blast
  from DeepCopy_frame(1)[OF d1] have f1: "?b < length h1" "\<forall>i<?b. h1 ! i = ?h ! i" by auto
  let ?h1 = "store h1 ?b K Old" and ?a = "length h1"
  have r1: "repr UNIV ?h1 (VRef (State w)) t"
    by (rule repr_store_fresh[OF r]) (use f1 in auto)
  from DeepCopy_repr(1)[OF r1 d] tn obtain h2 where
    d2: "DeepCopy fuel ?h1 (State w) = Some (?a, h2)"
    and ra: "repr {?a..<length h2} h2 (VRef ?a) t"
    and p2: "repr_pairs {?a<..<length h2} h2 (h2 ! ?a) ts"
    by auto
  from DeepCopy_frame(1)[OF d2] have f2: "?a < length h2" "\<forall>i<?a. h2 ! i = ?h1 ! i" by auto
  from l g d1 d2 have w': "heap w' = h2" "called w' = called w @ [(fst c, VRef ?a, VRef ?b)]"
    by (auto simp: Listener_def)
  let ?N = "{?b..<length h2}"
  have A: "repr ?N h2 (VRef ?a) t"
    by (rule repr_mono(1)[OF _ ra]) (use f1 in auto)
  have lb: "load h2 ?b k = load ?h1 ?b k" for k
    using f1 f2 by (intro load_frame) auto
  have B: "load h2 ?b K = Old" using lb f1 by (simp add: load_store_same)
  have C: "\<exists>u. repr ?N h2 (load h2 ?a k) u \<and> repr ?N h2 (load h2 ?b k) u" if ne: "k \<noteq> K" for k
  proof -
    have "repr {?a<..<length h2} h2 (tget (h2 ! ?a) k) (tsub ts k)" by (rule repr_tget[OF p2])
    then have "repr ?N h2 (tget (h2 ! ?a) k) (tsub ts k)"
      by (rule repr_mono(1)[rotated]) (use f1 in auto)
    then have 1: "repr ?N h2 (load h2 ?a k) (tsub ts k)"
      using f2 by (simp add: load_def cell_def)
    have "repr {?b<..<length h1} h1 (tget (h1 ! ?b) k) (tsub ts k)" by (rule repr_tget[OF p1])
    then have "repr {?b<..<length h1} ?h1 (tget (h1 ! ?b) k) (tsub ts k)"
      by (rule repr_frame(1)[rotated 2]) (auto simp: nth_store)
    then have "repr ?N h2 (tget (h1 ! ?b) k) (tsub ts k)"
      by (rule repr_widen) (use f2 in auto)
    moreover have "load h2 ?b k = tget (h1 ! ?b) k"
      using lb[of k] ne f1 by (simp add: load_store_other) (simp add: load_def cell_def)
    ultimately show ?thesis using 1 by auto
  qed
  from A B C f1 f2 have "snapshots ?b h2 K Old t ?a ?b" by (auto simp: snapshots_def)
  with w' show ?thesis by auto
qed

lemma Listener_tree:
  assumes "Listener fuel c K Old New w = Some w'" "tree_state fuel w t"
  shows "tree_state fuel w' t"
proof -
  note f = Listener_frame[OF assms(1)]
  have "State w' = State w" by (subst f(1)) simp
  moreover have "repr UNIV (heap w') (VRef (State w)) t"
    by (rule repr_extend[OF _ f(2,3)]) (use assms(2) in \<open>simp add: tree_state_def\<close>)
  ultimately show ?thesis using assms(2) by (simp add: tree_state_def)
qed


lemma deliver_calls:
  assumes "distinct (map fst cs)" "deliver fuel cs K Old New w = Some w'"
  shows "\<exists>new. called w' = called w @ new \<and> fst ` set new \<subseteq> fst ` set cs \<and>
     (\<forall>c\<in>set cs.
        (\<forall>k. snd c = Scoped k \<longrightarrow>
           filter (\<lambda>e. fst e = fst c) new = (if k = K then [(fst c, New, Old)] else [])) \<and>
        (snd c = Global \<longrightarrow> (\<forall>t. tree_state fuel w t \<longrightarrow>
           (\<exists>a b. filter (\<lambda>e. fst e = fst c) new = [(fst c, VRef a, VRef b)] \<and>
                  snapshots (length (heap w)) (heap w') K Old t a b))))"
  using assms
proof (induction cs arbitrary: w)
  case Nil
  then show ?case by simp
next
  case (Cons c cs)
  from Cons.prems obtain w1 where l: "Listener fuel c K Old New w = Some w1"
    and d: "deliver fuel cs K Old New w1 = Some w'"
    by (auto split: option.splits)
  from Cons.prems have dist: "distinct (map fst cs)" and fresh: "fst c \<notin> fst ` set cs" by auto
  from Listener_frame(4)[OF l] obtain n1 where
    n1: "called w1 = called w @ n1" "\<forall>e\<in>set n1. fst e = fst c" by blast
  from Cons.IH[OF dist d] obtain n2 where
    n2: "called w' = called w1 @ n2" "fst ` set n2 \<subseteq> fst ` set cs"
    and rest: "\<forall>c\<in>set cs.
        (\<forall>k. snd c = Scoped k \<longrightarrow>
           filter (\<lambda>e. fst e = fst c) n2 = (if k = K then [(fst c, New, Old)] else [])) \<and>
        (snd c = Global \<longrightarrow> (\<forall>t. tree_state fuel w1 t \<longrightarrow>
           (\<exists>a b. filter (\<lambda>e. fst e = fst c) n2 = [(fst c, VRef a, VRef b)] \<and>
                  snapshots (length (heap w1)) (heap w') K Old t a b)))"
    by blast
  note df = deliver_frame[OF d]
  have own1: "filter (\<lambda>e. fst e = fst c) n1 = n1" using n1(2) by (simp add: filter_id_conv)
  have "fst e \<noteq> fst c" if "e \<in> set n2" for e
  proof -
    from that n2(2) have "fst e \<in> fst ` set cs" by blast
    with fresh show ?thesis by metis
  qed
  then have own2: "filter (\<lambda>e. fst e = fst c) n2 = []"
    by (simp add: filter_empty_conv)
  have other1: "filter (\<lambda>e. fst e = fst c') n1 = []" if "c' \<in> set cs" for c'
  proof -
    from that fresh have "fst c \<noteq> fst c'" by (metis imageI)
    with n1(2) show ?thesis by (simp add: filter_empty_conv)
  qed
  have head:
    "(\<forall>k. snd c = Scoped k \<longrightarrow>
        filter (\<lambda>e. fst e = fst c) (n1 @ n2) = (if k = K then [(fst c, New, Old)] else [])) \<and>
     (snd c = Global \<longrightarrow> (\<forall>t. tree_state fuel w t \<longrightarrow>
        (\<exists>a b. filter (\<lambda>e. fst e = fst c) (n1 @ n2) = [(fst c, VRef a, VRef b)] \<and>
               snapshots (length (heap w)) (heap w') K Old t a b)))"
  proof (intro conjI allI impI)
    fix k assume "snd c = Scoped k"
    from l[unfolded Listener_scoped[OF this]] n1(1)
    have "n1 = (if k = K then [(fst c, New, Old)] else [])" by auto
    then show "filter (\<lambda>e. fst e = fst c) (n1 @ n2) = (if k = K then [(fst c, New, Old)] else [])"
      using own1 own2 by simp
  next
    fix t assume g: "snd c = Global" and t: "tree_state fuel w t"
    from Listener_global[OF l g t] obtain a b where
      c1: "called w1 = called w @ [(fst c, VRef a, VRef b)]"
      and s1: "snapshots (length (heap w)) (heap w1) K Old t a b"
      by blast
    from c1 n1(1) have "n1 = [(fst c, VRef a, VRef b)]" by simp
    moreover have "snapshots (length (heap w)) (heap w') K Old t a b"
      by (rule snapshots_extend[OF s1]) (use df in auto)
    ultimately show "\<exists>a b. filter (\<lambda>e. fst e = fst c) (n1 @ n2) = [(fst c, VRef a, VRef b)] \<and>
               snapshots (length (heap w)) (heap w') K Old t a b"
      using own1 own2 by auto
  qed
  have tail: "\<forall>c'\<in>set cs.
        (\<forall>k. snd c' = Scoped k \<longrightarrow>
           filter (\<lambda>e. fst e = fst c') (n1 @ n2) = (if k = K then [(fst c', New, Old)] else [])) \<and>
        (snd c' = Global \<longrightarrow> (\<forall>t. tree_state fuel w t \<longrightarrow>
           (\<exists>a b. filter (\<lambda>e. fst e = fst c') (n1 @ n2) = [(fst c', VRef a, VRef b)] \<and>
                  snapshots (length (heap w)) (heap w') K Old t a b)))"
  proof (intro ballI conjI allI impI)
    fix c' k assume "c' \<in> set cs" "snd c' = Scoped k"
    with rest other1 show
      "filter (\<lambda>e. fst e = fst c') (n1 @ n2) = (if k = K then [(fst c', New, Old)] else [])"
      by simp
  next
    fix c' t assume c': "c' \<in> set cs" "snd c' = Global" and t: "tree_state fuel w t"
    from rest c' Listener_tree[OF l t] obtain a b where
      f: "filter (\<lambda>e. fst e = fst c') n2 = [(fst c', VRef a, VRef b)]"
      and s: "snapshots (length (heap w1)) (heap w') K Old t a b"
      by blast
    have "snapshots (length (heap w)) (heap w') K Old t a b"
      by (rule snapshots_extend[OF s]) (use Listener_frame(2)[OF l] in auto)
    with f other1[OF c'(1)] show
      "\<exists>a b. filter (\<lambda>e. fst e = fst c') (n1 @ n2) = [(fst c', VRef a, VRef b)] \<and>
             snapshots (length (heap w)) (heap w') K Old t a b"
      by auto
  qed
  have "called w' = called w @ (n1 @ n2)" using n1(1) n2(1) by simp
  moreover have "fst ` set (n1 @ n2) \<subseteq> fst ` set (c # cs)" using n1(2) n2(2) by auto
  ultimately show ?case using head tail by (intro exI[of _ "n1 @ n2"]) simp
qed

lemma Fire_calls:
  assumes "notifiable fuel w" and "i < length (Connections w)"
  shows "\<exists>w' new. Fire fuel K Old New w = Some w' \<and> called w' = called w @ new \<and>
     invoked (Connections w ! i) i K Old New (heap w) (State w) (heap w') new"
proof -
  let ?w = "w\<lparr>fired := fired w @ [(K, Old, New)]\<rparr>"
  let ?cs = "enumerate 0 (Connections w)"
  from Fire_total[OF assms(1)] obtain w' where f: "Fire fuel K Old New w = Some w'" by blast
  then have d: "deliver fuel ?cs K Old New ?w = Some w'" by (simp add: Fire_def)
  have dist: "distinct (map fst ?cs)" by simp
  have mem: "(i, Connections w ! i) \<in> set ?cs"
    using assms(2) by (simp add: in_set_enumerate_eq)
  from deliver_calls[OF dist d] obtain new where
    c: "called w' = called ?w @ new"
    and each: "\<forall>c\<in>set ?cs.
        (\<forall>k. snd c = Scoped k \<longrightarrow>
           filter (\<lambda>e. fst e = fst c) new = (if k = K then [(fst c, New, Old)] else [])) \<and>
        (snd c = Global \<longrightarrow> (\<forall>t. tree_state fuel ?w t \<longrightarrow>
           (\<exists>a b. filter (\<lambda>e. fst e = fst c) new = [(fst c, VRef a, VRef b)] \<and>
                  snapshots (length (heap ?w)) (heap w') K Old t a b)))"
    by blast
  note e = each[rule_format, OF mem]
  have "invoked (Connections w ! i) i K Old New (heap w) (State w) (heap w') new"
  proof (cases "Connections w ! i")
    case (Scoped k)
    with e show ?thesis by (simp add: invoked_def)
  next
    case Global
    with assms have "Global \<in> set (Connections w)" by (metis nth_mem)
    with assms(1) obtain t where t: "repr UNIV (heap w) (VRef (State w)) t" "depth t \<le> fuel"
      by (auto simp: notifiable_def)
    then have "tree_state fuel ?w t" by (simp add: tree_state_def)
    with e Global t show ?thesis by (auto simp: invoked_def)
  qed
  with f c show ?thesis by auto
qed

lemma Update_frame:
  assumes "Update fuel k v w = Some (r, w')"
  shows "State w' = State w \<and> InitialState w' = InitialState w \<and>
     length (heap w) \<le> length (heap w') \<and>
     (\<forall>i<length (heap w). i \<noteq> State w \<longrightarrow> heap w' ! i = heap w ! i)"
proof (cases "k \<in> LockedKeys w")
  case True
  with assms show ?thesis by (auto simp: Update_def Log_def)
next
  case False
  let ?cur = "load (heap w) (State w) k"
  obtain Result w1 where e: "ExecuteMiddleware k v ?cur w = (Result, w1)"
    by (cases "ExecuteMiddleware k v ?cur w")
  note w1 = ExecuteMiddleware_world[OF e]
  have hs: "heap w1 = heap w" "State w1 = State w" "InitialState w1 = InitialState w"
    by (subst w1, simp)+
  show ?thesis
  proof (cases "rawequal Result ?cur")
    case True
    with assms False e have "w' = w1" by (simp add: Update_def)
    with hs show ?thesis by simp
  next
    case ne: False
    let ?c = "w1\<lparr>heap := store (heap w) (State w) k Result\<rparr>"
    from assms False e ne have f: "Fire fuel k ?cur Result ?c = Some w'"
      by (auto simp: Update_def Let_def hs split: option.splits)
    note fr = Fire_frame[OF f]
    have "State w' = State w" "InitialState w' = InitialState w"
      by (subst fr(1), simp add: hs)+
    moreover have "length (heap w) \<le> length (heap w')" using fr(2) by simp
    moreover have "\<forall>i<length (heap w). i \<noteq> State w \<longrightarrow> heap w' ! i = heap w ! i"
      using fr(3) by (simp add: nth_store)
    ultimately show ?thesis by blast
  qed
qed

lemma Increment_frame:
  assumes "Increment fuel k n w = Some (r, w')"
  shows "State w' = State w \<and> InitialState w' = InitialState w \<and>
     length (heap w) \<le> length (heap w') \<and>
     (\<forall>i<length (heap w). i \<noteq> State w \<longrightarrow> heap w' ! i = heap w ! i)"
proof (cases "k \<in> LockedKeys w \<or> (\<forall>m. load (heap w) (State w) k \<noteq> VNum m)")
  case True
  with assms show ?thesis
    by (cases "load (heap w) (State w) k") (auto simp: Increment_def Log_def split: if_splits)
next
  case False
  then obtain m where u: "k \<notin> LockedKeys w" and l: "load (heap w) (State w) k = VNum m" by auto
  obtain Result w1 where e: "ExecuteMiddleware k (VNum (m + n)) (VNum m) w = (Result, w1)"
    by (cases "ExecuteMiddleware k (VNum (m + n)) (VNum m) w")
  note w1 = ExecuteMiddleware_world[OF e]
  have hs: "heap w1 = heap w" "State w1 = State w" "InitialState w1 = InitialState w"
    by (subst w1, simp)+
  let ?c = "w1\<lparr>heap := store (heap w) (State w) k Result\<rparr>"
  from assms u l e have f: "Fire fuel k (VNum m) Result ?c = Some w'"
    by (auto simp: Increment_def Let_def hs split: option.splits)
  note fr = Fire_frame[OF f]
  have "State w' = State w" "InitialState w' = InitialState w"
    by (subst fr(1), simp add: hs)+
  moreover have "length (heap w) \<le> length (heap w')" using fr(2) by simp
  moreover have "\<forall>i<length (heap w). i \<noteq> State w \<longrightarrow> heap w' ! i = heap w ! i"
    using fr(3) by (simp add: nth_store)
  ultimately show ?thesis by blast
qed

lemma update_pairs_frame:
  "update_pairs fuel kvs w = Some w' \<Longrightarrow>
     State w' = State w \<and> InitialState w' = InitialState w \<and>
     length (heap w) \<le> length (heap w') \<and>
     (\<forall>i<length (heap w). i \<noteq> State w \<longrightarrow> heap w' ! i = heap w ! i)"
proof (induction kvs arbitrary: w)
  case Nil
  then show ?case by simp
next
  case (Cons e kvs)
  obtain K V where e: "e = (K, V)" by (cases e)
  with Cons.prems obtain r w1 where u: "Update fuel K V w = Some (r, w1)"
    and p: "update_pairs fuel kvs w1 = Some w'"
    by (auto split: option.splits)
  from Update_frame[OF u] Cons.IH[OF p] show ?case by auto
qed


lemma apply_op_frame:
  assumes "apply_op fuel x w = Some w'" and "avoids B x" and "State w \<notin> B"
    and "B \<subseteq> {..<length (heap w)}"
  shows "InitialState w' = InitialState w \<and> State w' \<notin> B \<and>
     length (heap w) \<le> length (heap w') \<and> (\<forall>a\<in>B. heap w' ! a = heap w ! a)"
proof (cases x)
  case (OpUpdate k v)
  with assms(1) obtain r where "Update fuel k v w = Some (r, w')" by auto
  from Update_frame[OF this] assms(3,4) show ?thesis by auto
next
  case (OpUpdateTable a)
  with assms(1) have "update_pairs fuel (cell (heap w) a) w = Some w'"
    by (simp add: UpdateTable_def)
  from update_pairs_frame[OF this] assms(3,4) show ?thesis by auto
next
  case (OpIncrement k n)
  with assms(1) obtain r where "Increment fuel k n w = Some (r, w')" by auto
  from Increment_frame[OF this] assms(3,4) show ?thesis by auto
next
  case (OpReset k)
  with assms(1) obtain r where "Update fuel k (load (heap w) (InitialState w) k) w = Some (r, w')"
    by (auto simp: Reset_def split: option.splits)
  from Update_frame[OF this] assms(3,4) show ?thesis by auto
next
  case (OpLock K)
  with assms show ?thesis by (auto simp: Lock_def split: option.splits)
next
  case (OpUnlock K)
  with assms show ?thesis by (auto simp: Unlock_def split: option.splits)
next
  case (OpMiddleware k m)
  with assms show ?thesis by (auto simp: Middleware_def)
next
  case (OpOnChange s)
  with assms show ?thesis by (auto simp: OnChange_def)
next
  case OpVerbose
  with assms show ?thesis by (auto simp: Verbose_def)
next
  case (OpGet K)
  show ?thesis
  proof (cases K)
    case None
    with OpGet assms(1) obtain c h' where d: "DeepCopy fuel (heap w) (State w) = Some (c, h')"
      and w': "w' = w\<lparr>heap := h'\<rparr>"
      by (auto simp: Get_def split: option.splits)
    from DeepCopy_frame(1)[OF d] w' assms(3,4) show ?thesis by auto
  next
    case (Some k)
    with OpGet assms show ?thesis by (auto simp: Get_def)
  qed
next
  case OpRestore
  with assms(1) obtain c h' where d: "DeepCopy fuel (heap w) (InitialState w) = Some (c, h')"
    and w': "w' = w\<lparr>heap := h', State := c\<rparr>"
    by (auto simp: Restore_def split: option.splits)
  from DeepCopy_frame(1)[OF d] w' assms(4) show ?thesis by auto
next
  case (OpOverwrite a)
  with assms show ?thesis by (auto simp: Overwrite_def)
next
  case (OpNew t)
  with assms show ?thesis by (auto simp: nth_append)
next
  case (OpWrite a k v)
  with assms show ?thesis by (auto simp: nth_store)
qed

lemma run_frame:
  assumes "run fuel xs w = Some w'" and "\<forall>x\<in>set xs. avoids B x" and "State w \<notin> B"
    and "B \<subseteq> {..<length (heap w)}"
  shows "InitialState w' = InitialState w \<and> State w' \<notin> B \<and>
     length (heap w) \<le> length (heap w') \<and> (\<forall>a\<in>B. heap w' ! a = heap w ! a)"
  using assms
proof (induction xs arbitrary: w)
  case Nil
  then show ?case by simp
next
  case (Cons x xs)
  from Cons.prems(1) obtain w1 where a: "apply_op fuel x w = Some w1"
    and r: "run fuel xs w1 = Some w'"
    by (auto split: option.splits)
  from apply_op_frame[OF a _ Cons.prems(3,4)] Cons.prems(2)
  have f: "InitialState w1 = InitialState w" "State w1 \<notin> B"
    "length (heap w) \<le> length (heap w1)" "\<forall>a\<in>B. heap w1 ! a = heap w ! a" by auto
  have "B \<subseteq> {..<length (heap w1)}" using Cons.prems(4) f(3) by auto
  from Cons.IH[OF r _ f(2) this] Cons.prems(2) f show ?case by auto
qed

text \<open>
  What the middleware does, read off the middleware map; which callbacks \<^verbatim>\<open>Update\<close> and
  \<^verbatim>\<open>Increment\<close> call; and that a connection, once made, stays where it is.
\<close>

lemma ExecuteMiddleware_eq:
  "ExecuteMiddleware Key New Old w =
     (case MiddlewareMap w Key of
        None \<Rightarrow> (New, w)
      | Some m \<Rightarrow>
          (fst (m New Old),
           if 200 < snd (m New Old) then w\<lparr>warned := warned w @ [(IsVerbose w, Yielding)]\<rparr>
           else w))"
  by (auto simp: ExecuteMiddleware_def Log_def split: option.splits prod.splits)

lemma notifiable_heap_cong:
  "Connections w1 = Connections w \<Longrightarrow> State w1 = State w \<Longrightarrow>
     notifiable fuel (w1\<lparr>heap := h\<rparr>) = notifiable fuel (w\<lparr>heap := h\<rparr>)"
  by (simp add: notifiable_def)

lemma Update_calls:
  assumes u: "Key \<notin> LockedKeys w"
    and e: "ExecuteMiddleware Key Value (load (heap w) (State w) Key) w = (Result, w1)"
    and ne: "\<not> rawequal Result (load (heap w) (State w) Key)"
    and n: "notifiable fuel (w\<lparr>heap := store (heap w) (State w) Key Result\<rparr>)"
    and i: "i < length (Connections w)"
  shows "\<exists>w' new. Update fuel Key Value w = Some (load (heap w) (State w) Key, w') \<and>
     called w' = called w @ new \<and>
     invoked (Connections w ! i) i Key (load (heap w) (State w) Key) Result
       (store (heap w) (State w) Key Result) (State w) (heap w') new"
proof -
  let ?cur = "load (heap w) (State w) Key"
  let ?c = "w1\<lparr>heap := store (heap w) (State w) Key Result\<rparr>"
  note w1 = ExecuteMiddleware_world[OF e]
  have hs: "heap w1 = heap w" "State w1 = State w" "called w1 = called w"
    "Connections w1 = Connections w"
    by (subst w1, simp)+
  have n': "notifiable fuel ?c" using n by (simp add: notifiable_heap_cong[OF hs(4,2)])
  have i': "i < length (Connections ?c)" using i hs by simp
  from Fire_calls[OF n' i', of Key ?cur Result] obtain w' new where
    f: "Fire fuel Key ?cur Result ?c = Some w'" and c: "called w' = called ?c @ new"
    and v: "invoked (Connections ?c ! i) i Key ?cur Result (heap ?c) (State ?c) (heap w') new"
    by blast
  have "Update fuel Key Value w = Some (?cur, w')"
    using u e ne f by (simp add: Update_def hs)
  with c v hs show ?thesis by auto
qed

lemma Update_quiet:
  assumes e: "ExecuteMiddleware Key Value (load (heap w) (State w) Key) w = (Result, w1)"
    and q: "Key \<in> LockedKeys w \<or> rawequal Result (load (heap w) (State w) Key)"
  shows "\<exists>r w'. Update fuel Key Value w = Some (r, w') \<and> called w' = called w"
proof (cases "Key \<in> LockedKeys w")
  case True
  then show ?thesis by (simp add: Update_def Log_def)
next
  case False
  note w1 = ExecuteMiddleware_world[OF e]
  have "called w1 = called w" by (subst w1) simp
  with False q e show ?thesis by (simp add: Update_def)
qed

lemma Increment_calls:
  assumes u: "Key \<notin> LockedKeys w" and l: "load (heap w) (State w) Key = VNum n"
    and e: "ExecuteMiddleware Key (VNum (n + Amount)) (VNum n) w = (Result, w1)"
    and n: "notifiable fuel (w\<lparr>heap := store (heap w) (State w) Key Result\<rparr>)"
    and i: "i < length (Connections w)"
  shows "\<exists>w' new. Increment fuel Key Amount w = Some (VNum n, w') \<and>
     called w' = called w @ new \<and>
     invoked (Connections w ! i) i Key (VNum n) Result
       (store (heap w) (State w) Key Result) (State w) (heap w') new"
proof -
  let ?c = "w1\<lparr>heap := store (heap w) (State w) Key Result\<rparr>"
  note w1 = ExecuteMiddleware_world[OF e]
  have hs: "heap w1 = heap w" "State w1 = State w" "called w1 = called w"
    "Connections w1 = Connections w"
    by (subst w1, simp)+
  have n': "notifiable fuel ?c" using n by (simp add: notifiable_heap_cong[OF hs(4,2)])
  have i': "i < length (Connections ?c)" using i hs by simp
  from Fire_calls[OF n' i', of Key "VNum n" Result] obtain w' new where
    f: "Fire fuel Key (VNum n) Result ?c = Some w'" and c: "called w' = called ?c @ new"
    and v: "invoked (Connections ?c ! i) i Key (VNum n) Result (heap ?c) (State ?c) (heap w') new"
    by blast
  have "Increment fuel Key Amount w = Some (VNum n, w')"
    using u l e f by (simp add: Increment_def hs)
  with c v hs show ?thesis by auto
qed

lemma Increment_quiet:
  assumes "Key \<in> LockedKeys w \<or> (\<forall>m. load (heap w) (State w) Key \<noteq> VNum m)"
  shows "\<exists>r w'. Increment fuel Key Amount w = Some (r, w') \<and> called w' = called w"
  using assms
  by (cases "load (heap w) (State w) Key") (auto simp: Increment_def Log_def)

lemma Update_connections:
  assumes "Update fuel k v w = Some (r, w')"
  shows "Connections w' = Connections w"
proof (cases "k \<in> LockedKeys w")
  case True
  with assms show ?thesis by (auto simp: Update_def Log_def)
next
  case False
  let ?cur = "load (heap w) (State w) k"
  obtain Result w1 where e: "ExecuteMiddleware k v ?cur w = (Result, w1)"
    by (cases "ExecuteMiddleware k v ?cur w")
  note w1 = ExecuteMiddleware_world[OF e]
  have hs: "heap w1 = heap w" "State w1 = State w" "Connections w1 = Connections w"
    by (subst w1, simp)+
  show ?thesis
  proof (cases "rawequal Result ?cur")
    case True
    with assms False e have "w' = w1" by (simp add: Update_def)
    with hs show ?thesis by simp
  next
    case ne: False
    let ?c = "w1\<lparr>heap := store (heap w) (State w) k Result\<rparr>"
    from assms False e ne have f: "Fire fuel k ?cur Result ?c = Some w'"
      by (auto simp: Update_def Let_def hs split: option.splits)
    show ?thesis by (subst Fire_frame(1)[OF f]) (simp add: hs)
  qed
qed

lemma Increment_connections:
  assumes "Increment fuel k n w = Some (r, w')"
  shows "Connections w' = Connections w"
proof (cases "k \<in> LockedKeys w \<or> (\<forall>m. load (heap w) (State w) k \<noteq> VNum m)")
  case True
  with assms show ?thesis
    by (cases "load (heap w) (State w) k") (auto simp: Increment_def Log_def split: if_splits)
next
  case False
  then obtain m where u: "k \<notin> LockedKeys w" and l: "load (heap w) (State w) k = VNum m" by auto
  obtain Result w1 where e: "ExecuteMiddleware k (VNum (m + n)) (VNum m) w = (Result, w1)"
    by (cases "ExecuteMiddleware k (VNum (m + n)) (VNum m) w")
  note w1 = ExecuteMiddleware_world[OF e]
  have hs: "heap w1 = heap w" "State w1 = State w" "Connections w1 = Connections w"
    by (subst w1, simp)+
  let ?c = "w1\<lparr>heap := store (heap w) (State w) k Result\<rparr>"
  from assms u l e have f: "Fire fuel k (VNum m) Result ?c = Some w'"
    by (auto simp: Increment_def Let_def hs split: option.splits)
  show ?thesis by (subst Fire_frame(1)[OF f]) (simp add: hs)
qed

lemma update_pairs_connections:
  "update_pairs fuel kvs w = Some w' \<Longrightarrow> Connections w' = Connections w"
proof (induction kvs arbitrary: w)
  case Nil
  then show ?case by simp
next
  case (Cons e kvs)
  obtain K V where e: "e = (K, V)" by (cases e)
  with Cons.prems obtain r w1 where u: "Update fuel K V w = Some (r, w1)"
    and p: "update_pairs fuel kvs w1 = Some w'"
    by (auto split: option.splits)
  from Update_connections[OF u] Cons.IH[OF p] show ?case by simp
qed

lemma apply_op_connections:
  assumes "apply_op fuel x w = Some w'"
  shows "\<exists>more. Connections w' = Connections w @ more"
proof (cases x)
  case (OpUpdate k v)
  with assms obtain r where "Update fuel k v w = Some (r, w')" by auto
  from Update_connections[OF this] show ?thesis by simp
next
  case (OpUpdateTable a)
  with assms have "update_pairs fuel (cell (heap w) a) w = Some w'"
    by (simp add: UpdateTable_def)
  from update_pairs_connections[OF this] show ?thesis by simp
next
  case (OpIncrement k n)
  with assms obtain r where "Increment fuel k n w = Some (r, w')" by auto
  from Increment_connections[OF this] show ?thesis by simp
next
  case (OpReset k)
  with assms obtain r where "Update fuel k (load (heap w) (InitialState w) k) w = Some (r, w')"
    by (auto simp: Reset_def split: option.splits)
  from Update_connections[OF this] show ?thesis by simp
next
  case (OpGet K)
  with assms show ?thesis by (cases K) (auto simp: Get_def split: option.splits)
next
  case OpRestore
  with assms show ?thesis by (auto simp: Restore_def split: option.splits)
qed (use assms in \<open>auto simp: Lock_def Unlock_def Middleware_def OnChange_def Verbose_def
      Overwrite_def split: option.splits\<close>)

lemma run_connections:
  "run fuel xs w = Some w' \<Longrightarrow> \<exists>more. Connections w' = Connections w @ more"
proof (induction xs arbitrary: w)
  case Nil
  then show ?case by simp
next
  case (Cons x xs)
  from Cons.prems obtain w1 where a: "apply_op fuel x w = Some w1"
    and r: "run fuel xs w1 = Some w'"
    by (auto split: option.splits)
  from apply_op_connections[OF a] Cons.IH[OF r] show ?case by auto
qed

lemma registered:
  assumes "OnChange s w0 = (i, w1)" and "run fuel xs w1 = Some w"
  shows "w1 = w0\<lparr>Connections := Connections w0 @ [s]\<rparr>" and "i = length (Connections w0)"
    and "i < length (Connections w)" and "Connections w ! i = s"
proof -
  from assms(1) show a: "w1 = w0\<lparr>Connections := Connections w0 @ [s]\<rparr>"
    and b: "i = length (Connections w0)"
    by (auto simp: OnChange_def)
  from run_connections[OF assms(2)] obtain more where
    "Connections w = Connections w1 @ more" by blast
  with a b show "i < length (Connections w)" "Connections w ! i = s"
    by (simp_all add: nth_append)
qed


section \<open>The example crates, evaluated\<close>

lemmas eval_simps = Let_def numeral_2_eq_2 cell_def store_def tset_def load_def tget_def bag_def

lemma quiet_tree_state: "tree_state 2 quiet_crate quiet_tree"
  by (simp add: tree_state_def quiet_crate_def reset_crate_def inv_crate_def quiet_tree_def bag_def)

lemma snap_eval: "Snapshot 2 quiet_crate = Some snap_crate"
  by (simp add: Snapshot_def snap_crate_def quiet_crate_def reset_crate_def inv_crate_def eval_simps)

lemma leak_eval:
  "run 2 [OpReset ''Inv'', OpGet (Some ''Inv''), OpWrite 6 ''n'' (VNum 7)] snap_crate = Some leak_crate"
  by (simp add: leak_crate_def snap_crate_def quiet_crate_def reset_crate_def inv_crate_def
      Reset_def Update_def ExecuteMiddleware_def Fire_def Get_def eval_simps)

lemma restore_eval: "Restore 2 leak_crate = Some restored_crate"
  by (simp add: Restore_def restored_crate_def leak_crate_def snap_crate_def quiet_crate_def
      reset_crate_def inv_crate_def eval_simps)

lemma restored_not_tree:
  "\<not> repr UNIV (heap restored_crate) (VRef (State restored_crate)) quiet_tree"
  by (simp add: restored_crate_def leak_crate_def snap_crate_def quiet_crate_def
      reset_crate_def inv_crate_def quiet_tree_def)

lemma Fire_eval:
  "Fire 2 ''Gold'' (VNum 3) (VNum 10) inv_crate =
     Some (inv_crate\<lparr>heap := inv_heap @ [[(''Gold'', VNum 3), (''Inv'', VRef 6)], bag,
                                          [(''Gold'', VNum 10), (''Inv'', VRef 8)], bag],
                     called := [(1, VRef 7, VRef 5)],
                     fired := [(''Gold'', VNum 3, VNum 10)]\<rparr>)"
  by (simp add: Fire_def Listener_def inv_crate_def inv_heap_def eval_simps)

lemma repr_load: "repr A h (VRef a) (Node ts) \<Longrightarrow> repr A h (load h a k) (tsub ts k)"
  using repr_tget[of A h "h ! a" ts k] by (simp add: load_def cell_def)

lemma inv_notifiable: "notifiable 2 inv_crate"
  using inv_crate_notifiable by (simp add: inv_crate_def)

text \<open>
  The baseline is also damaged through the crate alone: after \<^verbatim>\<open>Reset("Inv")\<close> the caller
  hands the table that \<^verbatim>\<open>Get("Inv")\<close> returns to \<^verbatim>\<open>Overwrite\<close>, and \<^verbatim>\<open>Update\<close> then writes
  into a table of the baseline.
\<close>

lemma Overwrite_baseline_example:
  "\<exists>w2 w3. run 2 [OpReset ''Inv'', OpOverwrite 6, OpUpdate ''n'' (VNum 7)] snap_crate = Some w2 \<and>
     Restore 2 w2 = Some w3 \<and> load (heap w3) (State w3) ''Inv'' = VRef 8 \<and>
     load (heap w3) 8 ''n'' = VNum 7"
  by (simp add: snap_crate_def quiet_crate_def reset_crate_def inv_crate_def
      Reset_def Update_def ExecuteMiddleware_def Fire_def Overwrite_def Restore_def eval_simps)

text \<open>
  \<^verbatim>\<open>Increment\<close> of a key that does not hold a number returns the current value and changes
  neither the heap nor any field of the crate. It passes one entry to \<^verbatim>\<open>warn\<close> when the
  key is not locked and the crate is in verbose mode, and none otherwise: the message
  goes to \<^verbatim>\<open>Log\<close> at verbose level (line 187).
\<close>

lemma Increment_non_number:
  assumes "\<forall>n. load (heap w) (State w) Key \<noteq> VNum n"
  shows "Increment fuel Key Amount w =
     Some (load (heap w) (State w) Key,
           if Key \<notin> LockedKeys w \<and> IsVerbose w
           then w\<lparr>warned := warned w @ [(True, NonInteger Key)]\<rparr> else w)"
  using assms by (cases "load (heap w) (State w) Key") (auto simp: Increment_def Log_def)

text \<open>
  When the state is a finite tree \<open>t\<close> within the recursion depth, \<^verbatim>\<open>Snapshot()\<close> succeeds;
  and after any sequence of operations that succeeds and in which no table of the new
  baseline is made the state table or assigned to, \<^verbatim>\<open>Restore()\<close> succeeds and makes the
  state a new table with the tree \<open>t\<close>, the state at the time of the snapshot.
  \<^verbatim>\<open>Restore()\<close> changes only the heap, by allocation, and the state field: it consults
  neither locks nor middleware and notifies nobody. The tables of the baseline are those
  allocated by the snapshot.
\<close>

lemma Restore_after_Snapshot:
  assumes "tree_state fuel w t"
  shows "\<exists>w1. Snapshot fuel w = Some w1 \<and>
     (\<forall>xs w2. run fuel xs w1 = Some w2 \<and>
               (\<forall>x\<in>set xs. avoids {length (heap w)..<length (heap w1)} x) \<longrightarrow>
        (\<exists>w3. Restore fuel w2 = Some w3 \<and>
           w3 = w2\<lparr>heap := heap w3, State := State w3\<rparr> \<and>
           repr {length (heap w2)..<length (heap w3)} (heap w3) (VRef (State w3)) t \<and>
           (\<forall>i<length (heap w2). heap w3 ! i = heap w2 ! i)))"
proof -
  let ?b = "length (heap w)"
  from assms have r: "repr UNIV (heap w) (VRef (State w)) t" and d: "depth t \<le> fuel"
    by (auto simp: tree_state_def)
  from DeepCopy_repr(1)[OF r d] obtain h1 where
    d1: "DeepCopy fuel (heap w) (State w) = Some (?b, h1)"
    and r1: "repr {?b..<length h1} h1 (VRef ?b) t"
    by blast
  let ?w1 = "w\<lparr>heap := h1, InitialState := ?b\<rparr>"
  let ?B = "{?b..<length (heap ?w1)}"
  have s: "Snapshot fuel w = Some ?w1" using d1 by (simp add: Snapshot_def)
  have st: "State ?w1 \<notin> ?B" using repr_ref_bound[OF r] by simp
  have "\<exists>w3. Restore fuel w2 = Some w3 \<and>
           w3 = w2\<lparr>heap := heap w3, State := State w3\<rparr> \<and>
           repr {length (heap w2)..<length (heap w3)} (heap w3) (VRef (State w3)) t \<and>
           (\<forall>i<length (heap w2). heap w3 ! i = heap w2 ! i)"
    if run: "run fuel xs ?w1 = Some w2" and av: "\<forall>x\<in>set xs. avoids ?B x" for xs w2
  proof -
    have sub: "?B \<subseteq> {..<length (heap ?w1)}" by auto
    from run_frame[OF run av st sub]
    have f: "InitialState w2 = ?b" "length h1 \<le> length (heap w2)"
      "\<forall>a\<in>?B. heap w2 ! a = h1 ! a" by auto
    have r2: "repr ?B (heap w2) (VRef ?b) t"
      by (rule repr_frame(1)[OF _ f(2)]) (use f(3) r1 in auto)
    from DeepCopy_repr(1)[OF r2 d] obtain h3 where
      d3: "DeepCopy fuel (heap w2) (InitialState w2) = Some (length (heap w2), h3)"
      and r3: "repr {length (heap w2)..<length h3} h3 (VRef (length (heap w2))) t"
      unfolding f(1) by blast
    from DeepCopy_frame(1)[OF d3] have f3: "\<forall>i<length (heap w2). h3 ! i = heap w2 ! i" by simp
    have "Restore fuel w2 = Some (w2\<lparr>heap := h3, State := length (heap w2)\<rparr>)"
      using d3 by (simp add: Restore_def)
    with r3 f3 show ?thesis by simp
  qed
  with s show ?thesis by blast
qed

text \<open>
  The crate with \<^verbatim>\<open>Gold\<close> at 3 and a construction-time baseline of 50: after
  \<^verbatim>\<open>Snapshot()\<close>, \<^verbatim>\<open>Update("Gold", 8)\<close> and \<^verbatim>\<open>Lock()\<close>, every key is locked and \<^verbatim>\<open>Gold\<close> is
  8; \<^verbatim>\<open>Restore()\<close> brings back 3, not 50, and fires nothing.
\<close>

lemma Restore_after_Snapshot_example:
  "tree_state 2 quiet_crate quiet_tree \<and> Snapshot 2 quiet_crate = Some snap_crate \<and>
   load (heap quiet_crate) (InitialState quiet_crate) ''Gold'' = VNum 50 \<and>
   (\<exists>w2 w3. run 2 [OpUpdate ''Gold'' (VNum 8), OpLock None] snap_crate = Some w2 \<and>
       load (heap w2) (State w2) ''Gold'' = VNum 8 \<and> IsLocked None w2 \<and>
       Restore 2 w2 = Some w3 \<and> fired w3 = fired w2 \<and> LockedKeys w3 = LockedKeys w2 \<and>
       repr UNIV (heap w3) (VRef (State w3)) quiet_tree \<and>
       load (heap w3) (State w3) ''Gold'' = VNum 3)"
proof -
  let ?xs = "[OpUpdate ''Gold'' (VNum 8), OpLock None]"
  have b: "load (heap quiet_crate) (InitialState quiet_crate) ''Gold'' = VNum 50"
    by (simp add: quiet_crate_def reset_crate_def inv_crate_def eval_simps)
  have "\<exists>w2. run 2 ?xs snap_crate = Some w2 \<and> load (heap w2) (State w2) ''Gold'' = VNum 8 \<and>
          IsLocked None w2"
    by (simp add: snap_crate_def quiet_crate_def reset_crate_def inv_crate_def
        Update_def ExecuteMiddleware_def clamp_mw_def Fire_def Lock_def IsLocked_def keys_of_def eval_simps)
  then obtain w2 where r: "run 2 ?xs snap_crate = Some w2"
    and p: "load (heap w2) (State w2) ''Gold'' = VNum 8" "IsLocked None w2" by blast
  have av: "\<forall>x\<in>set ?xs. avoids {length (heap quiet_crate)..<length (heap snap_crate)} x"
    by simp
  from Restore_after_Snapshot[OF quiet_tree_state] obtain w1 where s1: "Snapshot 2 quiet_crate = Some w1"
    and all: "\<forall>xs w2. run 2 xs w1 = Some w2 \<and>
               (\<forall>x\<in>set xs. avoids {length (heap quiet_crate)..<length (heap w1)} x) \<longrightarrow>
        (\<exists>w3. Restore 2 w2 = Some w3 \<and>
           w3 = w2\<lparr>heap := heap w3, State := State w3\<rparr> \<and>
           repr {length (heap w2)..<length (heap w3)} (heap w3) (VRef (State w3)) quiet_tree \<and>
           (\<forall>i<length (heap w2). heap w3 ! i = heap w2 ! i))"
    by blast
  from s1 snap_eval have w1: "w1 = snap_crate" by simp
  from all[rule_format, of ?xs w2] r av
  obtain w3 where w3: "Restore 2 w2 = Some w3" "w3 = w2\<lparr>heap := heap w3, State := State w3\<rparr>"
    and t3: "repr {length (heap w2)..<length (heap w3)} (heap w3) (VRef (State w3)) quiet_tree"
    unfolding w1 by blast
  have f: "fired w3 = fired w2" "LockedKeys w3 = LockedKeys w2" by (subst w3(2), simp)+
  have u: "repr UNIV (heap w3) (VRef (State w3)) quiet_tree"
    by (rule repr_mono(1)[OF _ t3]) simp
  from repr_load[OF u[unfolded quiet_tree_def], of "''Gold''"]
  have g: "load (heap w3) (State w3) ''Gold'' = VNum 3"
    by (simp add: tsub_def)
  from quiet_tree_state snap_eval b r p w3(1) f u g show ?thesis by blast
qed

text \<open>
  Without the \<^verbatim>\<open>Reset\<close>, \<^verbatim>\<open>Get("Inv")\<close> returns table 1 of the state, the same assignment
  leaves the baseline as it is, and \<^verbatim>\<open>Restore()\<close> brings back the state at the time of the
  snapshot.
\<close>

lemma Restore_without_Reset_example:
  "\<exists>w2 w3. run 2 [OpGet (Some ''Inv''), OpWrite 1 ''n'' (VNum 7)] snap_crate = Some w2 \<and>
     load (heap w2) (State w2) ''Inv'' = VRef 1 \<and> load (heap w2) 1 ''n'' = VNum 7 \<and>
     Restore 2 w2 = Some w3 \<and> repr UNIV (heap w3) (VRef (State w3)) quiet_tree"
  by (simp add: snap_crate_def quiet_crate_def reset_crate_def inv_crate_def quiet_tree_def
      Get_def Restore_def eval_simps)


section \<open>The claims\<close>

text \<open>
  C1 (as amended). For every crate and every key in the lock set, \<^verbatim>\<open>Update\<close> of that key
  with any value changes neither the heap nor any field of the crate and notifies nobody:
  the world after the call is the world before it, except that in verbose mode exactly
  one entry is passed to \<^verbatim>\<open>warn\<close>. Outside verbose mode nothing is logged, since \<^verbatim>\<open>Log\<close> is
  called at verbose level. The theorem does not say which value the call returns.
\<close>

theorem Update_locked:
  assumes "Key \<in> LockedKeys w"
  shows "\<exists>r. Update fuel Key Value w =
           Some (r, if IsVerbose w then w\<lparr>warned := warned w @ [(True, AttemptedSet Key Value)]\<rparr> else w)"
  using assms by (simp add: Update_def Log_def)

text \<open>The closed crate in verbose mode: one entry is logged, nothing else changes.\<close>

theorem Update_locked_witness:
  "''Health'' \<in> LockedKeys (Verbose closed_crate) \<and>
   (\<exists>r. Update 1 ''Health'' (VNum 5) (Verbose closed_crate) =
      Some (r, (Verbose closed_crate)\<lparr>warned := [(True, AttemptedSet ''Health'' (VNum 5))]\<rparr>))"
proof -
  have l: "''Health'' \<in> LockedKeys (Verbose closed_crate)"
    by (simp add: Verbose_def closed_crate_def)
  from Update_locked[OF l, of 1 "VNum 5"] l show ?thesis
    by (simp add: Verbose_def closed_crate_def open_crate_def)
qed

text \<open>
  C1 as stated fails on \<^verbatim>\<open>new Crate({Health: 100, Name: "Paul"}, true)\<close>: the key
  \<^verbatim>\<open>Health\<close> is locked and holds 100, and \<^verbatim>\<open>Update("Health", 5)\<close> returns \<^verbatim>\<open>undefined\<close> and
  logs nothing.
\<close>

theorem Update_locked_counterexample:
  "new_Crate 1 [paul] 0 True = Some closed_crate \<and>
   ''Health'' \<in> LockedKeys closed_crate \<and>
   load (heap closed_crate) (State closed_crate) ''Health'' = VNum 100 \<and>
   Update 1 ''Health'' (VNum 5) closed_crate = Some (VNil, closed_crate)"
  using new_closed
  by (simp add: closed_crate_def open_crate_def Update_def Log_def load_def cell_def tget_def paul_def)

text \<open>
  C2. For a key that is not locked, let \<open>Old\<close> be the current value, \<open>Result\<close> what the
  middleware registered for the key makes of the candidate and \<open>Old\<close> (the candidate
  itself when there is none), and \<open>w1\<close> the world once the middleware has run: the world
  before, with one warning logged when the middleware took more than 200 ms. If \<open>Result\<close>
  and \<open>Old\<close> are equal by \<^verbatim>\<open>===\<close>, where two tables are equal only when they are the same
  table, \<^verbatim>\<open>Update\<close> returns \<open>Old\<close> and changes nothing else. Otherwise, when the
  notification can be delivered, it stores \<open>Result\<close> under the key in the state table and
  nowhere else, fires one notification with the key, \<open>Old\<close> and \<open>Result\<close>, and returns
  \<open>Old\<close>.
\<close>

theorem Update_unlocked:
  assumes "Key \<notin> LockedKeys w" and "State w < length (heap w)"
    and "Old = load (heap w) (State w) Key"
    and "Result = (case MiddlewareMap w Key of None \<Rightarrow> Value | Some m \<Rightarrow> fst (m Value Old))"
    and "slow = (case MiddlewareMap w Key of None \<Rightarrow> False | Some m \<Rightarrow> 200 < snd (m Value Old))"
    and "w1 = (if slow then w\<lparr>warned := warned w @ [(IsVerbose w, Yielding)]\<rparr> else w)"
  shows
    "(rawequal Result Old \<longrightarrow> Update fuel Key Value w = Some (Old, w1)) \<and>
     (\<not> rawequal Result Old \<and> notifiable fuel (w1\<lparr>heap := store (heap w) (State w) Key Result\<rparr>) \<longrightarrow>
        (\<exists>w'. Update fuel Key Value w = Some (Old, w') \<and>
           w' = w1\<lparr>heap := heap w', called := called w',
                   fired := fired w @ [(Key, Old, Result)]\<rparr> \<and>
           load (heap w') (State w') Key = Result \<and>
           (\<forall>i<length (heap w). heap w' ! i = store (heap w) (State w) Key Result ! i)))"
proof -
  have e: "ExecuteMiddleware Key Value (load (heap w) (State w) Key) w = (Result, w1)"
    using assms(3-6) by (simp add: ExecuteMiddleware_eq split: option.splits)
  from Update_same[OF assms(1) e] Update_commit[OF assms(1,2) e] assms(3)
  show ?thesis by blast
qed

text \<open>
  On the example crate \<^verbatim>\<open>Inv\<close> holds table 1. Table 2 has the same contents but is
  another table, so \<^verbatim>\<open>Update("Inv", table 2)\<close> commits and notifies, whereas updating with
  table 1 itself changes nothing. The middleware of \<^verbatim>\<open>Gold\<close> clamps to the range from 0 to
  10, and \<^verbatim>\<open>Gold\<close> holds 10: \<^verbatim>\<open>Update("Gold", 50)\<close> resolves to 10 and changes nothing,
  \<^verbatim>\<open>Update("Gold", 4)\<close> commits 4.
\<close>

theorem Update_unlocked_witness:
  "''Inv'' \<notin> LockedKeys inv_crate \<and> ''Gold'' \<notin> LockedKeys inv_crate \<and>
   State inv_crate < length (heap inv_crate) \<and>
   load (heap inv_crate) (State inv_crate) ''Inv'' = VRef 1 \<and>
   MiddlewareMap inv_crate ''Inv'' = None \<and>
   cell (heap inv_crate) 1 = cell (heap inv_crate) 2 \<and>
   (\<exists>w'. Update 2 ''Inv'' (VRef 2) inv_crate = Some (VRef 1, w') \<and>
      fired w' = [(''Inv'', VRef 1, VRef 2)] \<and>
      load (heap w') (State w') ''Inv'' = VRef 2) \<and>
   Update 2 ''Inv'' (VRef 1) inv_crate = Some (VRef 1, inv_crate) \<and>
   load (heap inv_crate) (State inv_crate) ''Gold'' = VNum 10 \<and>
   MiddlewareMap inv_crate ''Gold'' = Some clamp_mw \<and>
   clamp_mw (VNum 50) (VNum 10) = (VNum 10, 0) \<and> clamp_mw (VNum 4) (VNum 10) = (VNum 4, 0) \<and>
   Update 2 ''Gold'' (VNum 50) inv_crate = Some (VNum 10, inv_crate) \<and>
   (\<exists>w'. Update 2 ''Gold'' (VNum 4) inv_crate = Some (VNum 10, w') \<and>
      fired w' = [(''Gold'', VNum 10, VNum 4)] \<and>
      load (heap w') (State w') ''Gold'' = VNum 4)"
proof -
  have a: "''Inv'' \<notin> LockedKeys inv_crate" "State inv_crate < length (heap inv_crate)"
    and g: "''Gold'' \<notin> LockedKeys inv_crate"
    and f0: "fired inv_crate = []"
    by (simp_all add: inv_crate_def inv_heap_def)
  have l: "load (heap inv_crate) (State inv_crate) ''Inv'' = VRef 1"
    and lg: "load (heap inv_crate) (State inv_crate) ''Gold'' = VNum 10"
    by (simp_all add: inv_crate_def inv_heap_def load_def cell_def tget_def)
  have m: "MiddlewareMap inv_crate ''Inv'' = None" "MiddlewareMap inv_crate ''Gold'' = Some clamp_mw"
    by (simp_all add: inv_crate_def)
  have cl: "clamp_mw (VNum 50) (VNum 10) = (VNum 10, 0)" "clamp_mw (VNum 4) (VNum 10) = (VNum 4, 0)"
    by (simp_all add: clamp_mw_def)
  have c: "cell (heap inv_crate) 1 = cell (heap inv_crate) 2"
    by (simp add: inv_crate_def inv_heap_def cell_def)
  have n: "notifiable 2 (inv_crate\<lparr>heap := store (heap inv_crate) (State inv_crate) ''Inv'' (VRef 2)\<rparr>)"
    unfolding notifiable_def
    by (auto simp: inv_crate_def inv_heap_def inv_tree_def bag_def store_def cell_def tset_def
        intro!: exI[of _ inv_tree])
  have ng: "notifiable 2 (inv_crate\<lparr>heap := store (heap inv_crate) (State inv_crate) ''Gold'' (VNum 4)\<rparr>)"
    unfolding notifiable_def
    by (auto simp: inv_crate_def inv_heap_def bag_def store_def cell_def tset_def
        intro!: exI[of _ "Node [(''Gold'', Leaf (VNum 4)), (''Inv'', Node [(''n'', Leaf (VNum 1))])]"])
  note t2 = Update_unlocked[OF a l[symmetric], of "VRef 2" "VRef 2" False inv_crate 2]
  note t1 = Update_unlocked[OF a l[symmetric], of "VRef 1" "VRef 1" False inv_crate 2]
  note g50 = Update_unlocked[OF g a(2) lg[symmetric], of "VNum 10" "VNum 50" False inv_crate 2]
  note g4 = Update_unlocked[OF g a(2) lg[symmetric], of "VNum 4" "VNum 4" False inv_crate 2]
  from t2 n obtain w' where
    u: "Update 2 ''Inv'' (VRef 2) inv_crate = Some (VRef 1, w')"
    and w': "w' = inv_crate\<lparr>heap := heap w', called := called w',
                  fired := fired inv_crate @ [(''Inv'', VRef 1, VRef 2)]\<rparr>"
    and gl: "load (heap w') (State w') ''Inv'' = VRef 2"
    by (auto simp: m)
  have f: "fired w' = [(''Inv'', VRef 1, VRef 2)]" by (subst w') (simp add: f0)
  from t1 have s: "Update 2 ''Inv'' (VRef 1) inv_crate = Some (VRef 1, inv_crate)" by (simp add: m)
  from g50 have s50: "Update 2 ''Gold'' (VNum 50) inv_crate = Some (VNum 10, inv_crate)"
    by (simp add: m cl)
  from g4 ng obtain w4 where
    u4: "Update 2 ''Gold'' (VNum 4) inv_crate = Some (VNum 10, w4)"
    and w4: "w4 = inv_crate\<lparr>heap := heap w4, called := called w4,
                  fired := fired inv_crate @ [(''Gold'', VNum 10, VNum 4)]\<rparr>"
    and gl4: "load (heap w4) (State w4) ''Gold'' = VNum 4"
    by (auto simp: m cl)
  have f4: "fired w4 = [(''Gold'', VNum 10, VNum 4)]" by (subst w4) (simp add: f0)
  from a g l lg m cl c u f gl s s50 u4 f4 gl4 show ?thesis by blast
qed

text \<open>
  C3. For a key that is not locked and holds the number \<open>n\<close>, let \<open>Result\<close> be what the
  middleware registered for the key makes of \<open>n + Amount\<close> and \<open>n\<close> (the sum itself when
  there is none), and \<open>w1\<close> the world once the middleware has run. When the notification
  can be delivered, \<^verbatim>\<open>Increment\<close> stores \<open>Result\<close> under the key in the state table and
  nowhere else, fires one notification with the key, \<open>n\<close> and \<open>Result\<close>, whether or not
  \<open>Result\<close> equals \<open>n\<close>, and returns \<open>n\<close>.
\<close>

theorem Increment_numeric:
  assumes "Key \<notin> LockedKeys w" and "load (heap w) (State w) Key = VNum n"
    and "Result = (case MiddlewareMap w Key of
                     None \<Rightarrow> VNum (n + Amount)
                   | Some m \<Rightarrow> fst (m (VNum (n + Amount)) (VNum n)))"
    and "slow = (case MiddlewareMap w Key of
                   None \<Rightarrow> False
                 | Some m \<Rightarrow> 200 < snd (m (VNum (n + Amount)) (VNum n)))"
    and "w1 = (if slow then w\<lparr>warned := warned w @ [(IsVerbose w, Yielding)]\<rparr> else w)"
    and "notifiable fuel (w1\<lparr>heap := store (heap w) (State w) Key Result\<rparr>)"
  shows "\<exists>w'. Increment fuel Key Amount w = Some (VNum n, w') \<and>
          w' = w1\<lparr>heap := heap w', called := called w',
                  fired := fired w @ [(Key, VNum n, Result)]\<rparr> \<and>
          load (heap w') (State w') Key = Result \<and>
          (\<forall>i<length (heap w). heap w' ! i = store (heap w) (State w) Key Result ! i)"
proof -
  have e: "ExecuteMiddleware Key (VNum (n + Amount)) (VNum n) w = (Result, w1)"
    using assms(3-5) by (simp add: ExecuteMiddleware_eq split: option.splits)
  from Increment_commit[OF assms(1,2) e assms(6)] show ?thesis by blast
qed

text \<open>
  \<^verbatim>\<open>Increment("Health", 5)\<close> on the crate without middleware stores 105. On the example
  crate \<^verbatim>\<open>Gold\<close> holds 10 and its middleware clamps 15 back to 10: \<^verbatim>\<open>Increment("Gold", 5)\<close>
  still fires, with 10 as old and as new value.
\<close>

theorem Increment_numeric_witness:
  "''Health'' \<notin> LockedKeys open_crate \<and>
   load (heap open_crate) (State open_crate) ''Health'' = VNum 100 \<and>
   MiddlewareMap open_crate ''Health'' = None \<and>
   Increment 1 ''Health'' 5 open_crate =
     Some (VNum 100, open_crate\<lparr>heap := [[(''Health'', VNum 105), (''Name'', VStr ''Paul'')], paul],
                                  fired := [(''Health'', VNum 100, VNum 105)]\<rparr>) \<and>
   ''Gold'' \<notin> LockedKeys inv_crate \<and>
   load (heap inv_crate) (State inv_crate) ''Gold'' = VNum 10 \<and>
   MiddlewareMap inv_crate ''Gold'' = Some clamp_mw \<and>
   clamp_mw (VNum (10 + 5)) (VNum 10) = (VNum 10, 0) \<and>
   (\<exists>w'. Increment 2 ''Gold'' 5 inv_crate = Some (VNum 10, w') \<and>
      fired w' = [(''Gold'', VNum 10, VNum 10)] \<and>
      load (heap w') (State w') ''Gold'' = VNum 10)"
proof -
  have h: "''Health'' \<notin> LockedKeys open_crate" "MiddlewareMap open_crate ''Health'' = None"
    "fired open_crate = []" "Connections open_crate = []"
    by (simp_all add: open_crate_def)
  have lh: "load (heap open_crate) (State open_crate) ''Health'' = VNum 100"
    by (simp add: open_crate_def load_def cell_def tget_def paul_def)
  have sh: "store (heap open_crate) (State open_crate) ''Health'' (VNum 105)
      = [[(''Health'', VNum 105), (''Name'', VStr ''Paul'')], paul]"
    by (simp add: open_crate_def store_def cell_def tset_def paul_def)
  have nh: "notifiable 1 (open_crate\<lparr>heap := store (heap open_crate) (State open_crate) ''Health''
      (VNum (100 + 5))\<rparr>)"
    by (simp add: notifiable_def h)
  from Increment_numeric[OF h(1) lh, of "VNum (100 + 5)" 5 False open_crate 1] nh
  obtain wh where ih: "Increment 1 ''Health'' 5 open_crate = Some (VNum 100, wh)"
    and wh: "wh = open_crate\<lparr>heap := heap wh, called := called wh,
                   fired := fired open_crate @ [(''Health'', VNum 100, VNum (100 + 5))]\<rparr>"
    by (auto simp: h)
  have eh: "Increment 1 ''Health'' 5 open_crate =
     Some (VNum 100, open_crate\<lparr>heap := [[(''Health'', VNum 105), (''Name'', VStr ''Paul'')], paul],
                                  fired := [(''Health'', VNum 100, VNum 105)]\<rparr>)"
    using ih wh by (simp add: Increment_def ExecuteMiddleware_def Fire_def Let_def h lh sh)
  have a: "''Gold'' \<notin> LockedKeys inv_crate" "MiddlewareMap inv_crate ''Gold'' = Some clamp_mw"
    "fired inv_crate = []"
    by (simp_all add: inv_crate_def)
  have l: "load (heap inv_crate) (State inv_crate) ''Gold'' = VNum 10"
    by (simp add: inv_crate_def inv_heap_def load_def cell_def tget_def)
  have cl: "clamp_mw (VNum (10 + 5)) (VNum 10) = (VNum 10, 0)" by (simp add: clamp_mw_def)
  have s: "store (heap inv_crate) (State inv_crate) ''Gold'' (VNum 10) = inv_heap"
    by (simp add: inv_crate_def inv_heap_def store_def cell_def tset_def)
  have n: "notifiable 2 (inv_crate\<lparr>heap := store (heap inv_crate) (State inv_crate) ''Gold'' (VNum 10)\<rparr>)"
    unfolding s by (rule inv_crate_notifiable)
  from Increment_numeric[OF a(1) l, of "VNum 10" 5 False inv_crate 2] n
  obtain w' where
    i: "Increment 2 ''Gold'' 5 inv_crate = Some (VNum 10, w')"
    and w': "w' = inv_crate\<lparr>heap := heap w', called := called w',
                  fired := fired inv_crate @ [(''Gold'', VNum 10, VNum 10)]\<rparr>"
    and g: "load (heap w') (State w') ''Gold'' = VNum 10"
    by (auto simp: a clamp_mw_def)
  have "fired w' = [(''Gold'', VNum 10, VNum 10)]"
    by (subst w') (simp add: a)
  with h lh eh a l cl i g show ?thesis by blast
qed

text \<open>
  C4. \<^verbatim>\<open>Increment\<close> of a key whose value is not a number is to leave the state as it is,
  return the current value and emit exactly one warning. On
  \<^verbatim>\<open>new Crate({Health: 100, Name: "Paul"})\<close> the call \<^verbatim>\<open>Increment("Name", 1)\<close> returns the name
  and leaves the crate as it is, but passes nothing to \<^verbatim>\<open>warn\<close>: the message, which starts
  with \<^verbatim>\<open>WARN:\<close>, goes to \<^verbatim>\<open>Log\<close> at verbose level (line 187), and the crate is not verbose.
  In verbose mode the same call passes one entry to \<^verbatim>\<open>warn\<close>.
\<close>

theorem Increment_not_numeric_silent:
  "new_Crate 1 [paul] 0 False = Some open_crate \<and>
   ''Name'' \<notin> LockedKeys open_crate \<and>
   load (heap open_crate) (State open_crate) ''Name'' = VStr ''Paul'' \<and>
   Increment 1 ''Name'' 1 open_crate = Some (VStr ''Paul'', open_crate) \<and>
   warned open_crate = [] \<and>
   Increment 1 ''Name'' 1 (Verbose open_crate) =
     Some (VStr ''Paul'', (Verbose open_crate)\<lparr>warned := [(True, NonInteger ''Name'')]\<rparr>)"
  using new_open
  by (simp add: open_crate_def Verbose_def Increment_def Log_def load_def cell_def tget_def
      paul_def)

text \<open>
  C5. \<^verbatim>\<open>IsLocked()\<close> is true exactly when every key of the record is locked by itself.
  It is true after \<^verbatim>\<open>Lock()\<close>, and false again once any one key of the record has been
  unlocked: the answer is computed from the keys at each call.
\<close>

theorem IsLocked_every_key:
  "IsLocked None w = (\<forall>k\<in>set (keys_of (cell (heap w) (State w))). IsLocked (Some k) w) \<and>
   IsLocked None (Lock None w) \<and>
   (\<forall>k\<in>set (keys_of (cell (heap w) (State w))). \<not> IsLocked None (Unlock (Some k) (Lock None w)))"
proof -
  have a: "IsLocked None w = (\<forall>k\<in>set (keys_of (cell (heap w) (State w))). IsLocked (Some k) w)"
    by (auto simp: IsLocked_def all_locked_subset)
  have b: "IsLocked None (Lock None w)"
    by (simp add: IsLocked_all_subset Lock_all)
  have c: "\<not> IsLocked None (Unlock (Some k) (Lock None w))"
    if "k \<in> set (keys_of (cell (heap w) (State w)))" for k
    using that by (auto simp: IsLocked_all_subset Lock_all Unlock_def)
  from a b c show ?thesis by blast
qed

theorem IsLocked_every_key_witness:
  "''Name'' \<in> set (keys_of (cell (heap open_crate) (State open_crate))) \<and>
   \<not> IsLocked None open_crate \<and>
   IsLocked None (Lock None open_crate) \<and>
   \<not> IsLocked None (Unlock (Some ''Name'') (Lock None open_crate))"
proof -
  have k: "''Name'' \<in> set (keys_of (cell (heap open_crate) (State open_crate)))"
    by (simp add: open_crate_def cell_def keys_of_def paul_def)
  have n: "\<not> IsLocked None open_crate"
    by (simp add: open_crate_def IsLocked_def cell_def keys_of_def paul_def)
  from IsLocked_every_key[of open_crate] k n show ?thesis by blast
qed

text \<open>
  C6. When the state is a finite tree within the recursion depth, \<^verbatim>\<open>Get()\<close> returns a new
  table with the same tree as the state, made only of tables allocated by the call, and
  leaves every older table as it was. So whatever is later written into the tables of
  the copy (or into any table allocated after the call), the state keeps its tree.
  \<^verbatim>\<open>Get(k)\<close> returns the value stored under \<open>k\<close> itself and allocates nothing.
\<close>

theorem Get_copy_and_live:
  assumes "tree_state fuel w t"
  shows "Get fuel (Some k) w = Some (load (heap w) (State w) k, w) \<and>
    (\<exists>c w'. Get fuel None w = Some (VRef c, w') \<and> w' = w\<lparr>heap := heap w'\<rparr> \<and>
       repr {length (heap w)..<length (heap w')} (heap w') (VRef c) t \<and>
       (\<forall>i<length (heap w). heap w' ! i = heap w ! i) \<and>
       (\<forall>h. length (heap w') \<le> length h \<and> (\<forall>i<length (heap w). h ! i = heap w' ! i) \<longrightarrow>
            repr UNIV h (VRef (State w)) t))"
proof -
  from assms have r: "repr UNIV (heap w) (VRef (State w)) t" and d: "depth t \<le> fuel"
    by (auto simp: tree_state_def)
  from DeepCopy_repr(1)[OF r d] obtain h' where
    dc: "DeepCopy fuel (heap w) (State w) = Some (length (heap w), h')"
    and rc: "repr {length (heap w)..<length h'} h' (VRef (length (heap w))) t"
    by blast
  from DeepCopy_frame(1)[OF dc] have fr: "length (heap w) < length h'"
    "\<forall>i<length (heap w). h' ! i = heap w ! i" by auto
  have g: "Get fuel None w = Some (VRef (length (heap w)), w\<lparr>heap := h'\<rparr>)"
    using dc by (simp add: Get_def)
  have ind: "repr UNIV h (VRef (State w)) t"
    if "length h' \<le> length h" "\<forall>i<length (heap w). h ! i = h' ! i" for h
    by (rule repr_extend[OF r]) (use that fr in auto)
  have "Get fuel (Some k) w = Some (load (heap w) (State w) k, w)"
    by (simp add: Get_def)
  with g rc fr ind show ?thesis by auto
qed

text \<open>
  On the example crate \<^verbatim>\<open>Get("Inv")\<close> returns table 1, the table of the state, while
  \<^verbatim>\<open>Get()\<close> returns the new table 5, whose \<^verbatim>\<open>Inv\<close> is the new table 6.
\<close>

theorem Get_copy_and_live_witness:
  "tree_state 2 inv_crate inv_tree \<and>
   Get 2 (Some ''Inv'') inv_crate = Some (VRef 1, inv_crate) \<and>
   Get 2 None inv_crate =
     Some (VRef 5, inv_crate\<lparr>heap := inv_heap @ [[(''Gold'', VNum 10), (''Inv'', VRef 6)], bag]\<rparr>) \<and>
   (\<exists>c w'. Get 2 None inv_crate = Some (VRef c, w') \<and>
      repr {length (heap inv_crate)..<length (heap w')} (heap w') (VRef c) inv_tree)"
proof -
  have t: "tree_state 2 inv_crate inv_tree"
    using inv_crate_tree by (simp add: tree_state_def inv_crate_def inv_tree_def)
  have g: "Get 2 None inv_crate =
     Some (VRef 5, inv_crate\<lparr>heap := inv_heap @ [[(''Gold'', VNum 10), (''Inv'', VRef 6)], bag]\<rparr>)"
    by (simp add: Get_def inv_crate_def inv_heap_def bag_def numeral_2_eq_2 cell_def store_def tset_def)
  from Get_copy_and_live[OF t, of "''Inv''"] g t show ?thesis
    by (auto simp: inv_crate_def inv_heap_def load_def cell_def tget_def)
qed

text \<open>
  C7. \<^verbatim>\<open>Snapshot()\<close>, then mutations, then \<^verbatim>\<open>Restore()\<close> are to yield the state at the time
  of the snapshot. On the crate with \<^verbatim>\<open>Gold\<close> at 3 and \<^verbatim>\<open>Inv\<close> at \<^verbatim>\<open>{n: 1}\<close> they do not:
  after \<^verbatim>\<open>Snapshot()\<close>, \<^verbatim>\<open>Reset("Inv")\<close> stores the baseline's own table 6 in the state, not
  a copy of it (line 296), so it is table 6 that \<^verbatim>\<open>Get("Inv")\<close> returns, the caller's
  assignment \<^verbatim>\<open>Get("Inv").n = 7\<close> writes into the baseline, and \<^verbatim>\<open>Restore()\<close> yields a state
  whose \<^verbatim>\<open>Inv.n\<close> is 7, where it was 1 at the time of the snapshot.
\<close>

theorem Snapshot_Restore_leak:
  "tree_state 2 quiet_crate quiet_tree \<and> Snapshot 2 quiet_crate = Some snap_crate \<and>
   run 2 [OpReset ''Inv'', OpGet (Some ''Inv''), OpWrite 6 ''n'' (VNum 7)] snap_crate
     = Some leak_crate \<and>
   load (heap leak_crate) (State leak_crate) ''Inv'' = VRef 6 \<and>
   Restore 2 leak_crate = Some restored_crate \<and>
   load (heap restored_crate) (State restored_crate) ''Inv'' = VRef 8 \<and>
   load (heap restored_crate) 8 ''n'' = VNum 7 \<and>
   \<not> repr UNIV (heap restored_crate) (VRef (State restored_crate)) quiet_tree"
proof -
  have a: "load (heap leak_crate) (State leak_crate) ''Inv'' = VRef 6"
    by (simp add: leak_crate_def snap_crate_def quiet_crate_def reset_crate_def inv_crate_def eval_simps)
  have b: "load (heap restored_crate) (State restored_crate) ''Inv'' = VRef 8"
    "load (heap restored_crate) 8 ''n'' = VNum 7"
    by (simp_all add: restored_crate_def leak_crate_def snap_crate_def quiet_crate_def
        reset_crate_def inv_crate_def eval_simps)
  from quiet_tree_state snap_eval leak_eval restore_eval restored_not_tree a b
  show ?thesis by blast
qed

text \<open>
  C8. \<^verbatim>\<open>Reset(k)\<close> is \<^verbatim>\<open>Update(k, Baseline[k])\<close>, with the result of the call dropped. So a
  locked key is left as it is (at most a verbose entry is logged), and for a key that is
  not locked a middleware registered for it decides what is stored: the value it makes
  of the baseline value and the current value.
\<close>

theorem Reset_is_Update:
  "Reset fuel Key w = map_option snd (Update fuel Key (load (heap w) (InitialState w) Key) w) \<and>
   (Key \<in> LockedKeys w \<longrightarrow> (\<exists>w'. Reset fuel Key w = Some w' \<and> w' = w\<lparr>warned := warned w'\<rparr>)) \<and>
   (Key \<notin> LockedKeys w \<and> State w < length (heap w) \<and> MiddlewareMap w Key = Some m \<and>
    \<not> rawequal (fst (m (load (heap w) (InitialState w) Key) (load (heap w) (State w) Key)))
          (load (heap w) (State w) Key) \<and>
    notifiable fuel (w\<lparr>heap := store (heap w) (State w) Key
        (fst (m (load (heap w) (InitialState w) Key) (load (heap w) (State w) Key)))\<rparr>) \<longrightarrow>
    (\<exists>w'. Reset fuel Key w = Some w' \<and>
       load (heap w') (State w') Key =
         fst (m (load (heap w) (InitialState w) Key) (load (heap w) (State w) Key)) \<and>
       fired w' = fired w @ [(Key, load (heap w) (State w) Key,
         fst (m (load (heap w) (InitialState w) Key) (load (heap w) (State w) Key)))]))"
proof -
  let ?base = "load (heap w) (InitialState w) Key"
  let ?cur = "load (heap w) (State w) Key"
  have a: "Reset fuel Key w = map_option snd (Update fuel Key ?base w)"
    by (auto simp: Reset_def split: option.splits)
  have b: "\<exists>w'. Reset fuel Key w = Some w' \<and> w' = w\<lparr>warned := warned w'\<rparr>"
    if "Key \<in> LockedKeys w"
    using that by (simp add: Reset_def Update_def Log_def)
  have c: "\<exists>w'. Reset fuel Key w = Some w' \<and> load (heap w') (State w') Key = fst (m ?base ?cur) \<and>
       fired w' = fired w @ [(Key, ?cur, fst (m ?base ?cur))]"
    if u: "Key \<notin> LockedKeys w" "State w < length (heap w)" and mw: "MiddlewareMap w Key = Some m"
      and ne: "\<not> rawequal (fst (m ?base ?cur)) ?cur"
      and n: "notifiable fuel (w\<lparr>heap := store (heap w) (State w) Key (fst (m ?base ?cur))\<rparr>)"
  proof -
    obtain w1 where e: "ExecuteMiddleware Key ?base ?cur w = (fst (m ?base ?cur), w1)"
      using mw by (cases "m ?base ?cur") (simp add: ExecuteMiddleware_def)
    have n1: "notifiable fuel (w1\<lparr>heap := store (heap w) (State w) Key (fst (m ?base ?cur))\<rparr>)"
      using n by (simp add: notifiable_after_middleware[OF e])
    from Update_commit[OF u e ne n1] obtain w' where
      up: "Update fuel Key ?base w = Some (?cur, w')"
      and w': "w' = w1\<lparr>heap := heap w', called := called w',
                  fired := fired w @ [(Key, ?cur, fst (m ?base ?cur))]\<rparr>"
      and l: "load (heap w') (State w') Key = fst (m ?base ?cur)"
      by blast
    have "fired w' = fired w @ [(Key, ?cur, fst (m ?base ?cur))]"
      by (subst w') simp
    with up l show ?thesis by (simp add: Reset_def)
  qed
  from a b c show ?thesis by blast
qed

text \<open>
  On the closed crate \<^verbatim>\<open>Reset("Health")\<close> changes nothing. On the crate with \<^verbatim>\<open>Gold\<close> at 3
  and a baseline of 50, \<^verbatim>\<open>Reset("Gold")\<close> stores 10, the baseline value clamped.
\<close>

theorem Reset_is_Update_witness:
  "''Health'' \<in> LockedKeys closed_crate \<and> Reset 1 ''Health'' closed_crate = Some closed_crate \<and>
   ''Gold'' \<notin> LockedKeys reset_crate \<and> MiddlewareMap reset_crate ''Gold'' = Some clamp_mw \<and>
   load (heap reset_crate) (InitialState reset_crate) ''Gold'' = VNum 50 \<and>
   load (heap reset_crate) (State reset_crate) ''Gold'' = VNum 3 \<and>
   (\<exists>w'. Reset 2 ''Gold'' reset_crate = Some w' \<and>
      load (heap w') (State w') ''Gold'' = VNum 10 \<and>
      fired w' = [(''Gold'', VNum 3, VNum 10)])"
proof -
  have k: "''Health'' \<in> LockedKeys closed_crate" "IsVerbose closed_crate = False"
    by (simp_all add: closed_crate_def open_crate_def)
  from Reset_is_Update[of 1 "''Health''" closed_crate] k
  obtain w' where r: "Reset 1 ''Health'' closed_crate = Some w'" by blast
  then have r': "Reset 1 ''Health'' closed_crate = Some closed_crate"
    using k by (simp add: Reset_def Update_def Log_def)
  have u: "''Gold'' \<notin> LockedKeys reset_crate" "State reset_crate < length (heap reset_crate)"
    and m: "MiddlewareMap reset_crate ''Gold'' = Some clamp_mw"
    and f: "fired reset_crate = []"
    by (simp_all add: reset_crate_def inv_crate_def)
  have b: "load (heap reset_crate) (InitialState reset_crate) ''Gold'' = VNum 50"
    and c: "load (heap reset_crate) (State reset_crate) ''Gold'' = VNum 3"
    by (simp_all add: reset_crate_def inv_crate_def load_def cell_def tget_def)
  have v: "fst (clamp_mw (VNum 50) (VNum 3)) = VNum 10" by (simp add: clamp_mw_def)
  have n: "notifiable 2 (reset_crate\<lparr>heap := store (heap reset_crate) (State reset_crate) ''Gold'' (VNum 10)\<rparr>)"
    unfolding notifiable_def
    by (auto simp: reset_crate_def inv_crate_def inv_tree_def bag_def store_def cell_def tset_def
        intro!: exI[of _ inv_tree])
  from Reset_is_Update[of 2 "''Gold''" reset_crate clamp_mw, unfolded b c v f,
      THEN conjunct2, THEN conjunct2] u m n
  have "\<exists>w'. Reset 2 ''Gold'' reset_crate = Some w' \<and>
      load (heap w') (State w') ''Gold'' = VNum 10 \<and> fired w' = [(''Gold'', VNum 3, VNum 10)]"
    by simp
  with k r' u m b c show ?thesis by blast
qed

text \<open>
  C9. \<^verbatim>\<open>OnChange\<close> appends the subscription \<open>s\<close> to the connections, as connection \<open>i\<close>, and
  it is still connection \<open>i\<close> after any sequence of operations. From then on, \<^verbatim>\<open>Update\<close>
  and \<^verbatim>\<open>Increment\<close> call its callback exactly when they commit: not at all when the key is
  locked, when \<^verbatim>\<open>Update\<close> resolves to the current value or when \<^verbatim>\<open>Increment\<close> finds no
  number; and otherwise as \<open>invoked\<close> says, where \<open>new\<close> lists the calls of callbacks that
  the operation makes. A subscription for a key \<open>k\<close> is called once, with the new and the
  old value, when \<open>k\<close> is the key committed, and not at all when it is another key. A
  whole-store subscription is called once whatever the key, with two different tables
  allocated during the notification: the first has the tree of the state after the
  commit, the second holds the old value under the key committed and has the same tree as
  the first under every other key.
\<close>

theorem subscriptions:
  assumes "OnChange s w0 = (i, w1)" and "run fuel xs w1 = Some w"
    and "Old = load (heap w) (State w) Key"
    and "Result = (case MiddlewareMap w Key of None \<Rightarrow> Value | Some m \<Rightarrow> fst (m Value Old))"
    and "Summed = (case MiddlewareMap w Key of
                  None \<Rightarrow> VNum (n + Amount)
                | Some m \<Rightarrow> fst (m (VNum (n + Amount)) (VNum n)))"
  shows
    "w1 = w0\<lparr>Connections := Connections w0 @ [s]\<rparr> \<and> i = length (Connections w0) \<and>
     Connections w ! i = s \<and>
     (Key \<in> LockedKeys w \<or> rawequal Result Old \<longrightarrow>
        (\<exists>r w'. Update fuel Key Value w = Some (r, w') \<and> called w' = called w)) \<and>
     (Key \<notin> LockedKeys w \<and> \<not> rawequal Result Old \<and>
      notifiable fuel (w\<lparr>heap := store (heap w) (State w) Key Result\<rparr>) \<longrightarrow>
        (\<exists>w' new. Update fuel Key Value w = Some (Old, w') \<and> called w' = called w @ new \<and>
           invoked s i Key Old Result (store (heap w) (State w) Key Result) (State w)
             (heap w') new)) \<and>
     (Key \<in> LockedKeys w \<or> (\<forall>m. Old \<noteq> VNum m) \<longrightarrow>
        (\<exists>r w'. Increment fuel Key Amount w = Some (r, w') \<and> called w' = called w)) \<and>
     (Key \<notin> LockedKeys w \<and> Old = VNum n \<and>
      notifiable fuel (w\<lparr>heap := store (heap w) (State w) Key Summed\<rparr>) \<longrightarrow>
        (\<exists>w' new. Increment fuel Key Amount w = Some (Old, w') \<and> called w' = called w @ new \<and>
           invoked s i Key Old Summed (store (heap w) (State w) Key Summed) (State w)
             (heap w') new))"
proof -
  note reg = registered[OF assms(1,2)]
  obtain u1 where e: "ExecuteMiddleware Key Value (load (heap w) (State w) Key) w = (Result, u1)"
    using assms(3,4) by (simp add: ExecuteMiddleware_eq split: option.splits)
  obtain u2 where e2: "ExecuteMiddleware Key (VNum (n + Amount)) (VNum n) w = (Summed, u2)"
    using assms(5) by (simp add: ExecuteMiddleware_eq split: option.splits)
  have a: "\<exists>r w'. Update fuel Key Value w = Some (r, w') \<and> called w' = called w"
    if "Key \<in> LockedKeys w \<or> rawequal Result Old"
    using Update_quiet[OF e] that assms(3) by simp
  have b: "\<exists>w' new. Update fuel Key Value w = Some (Old, w') \<and> called w' = called w @ new \<and>
           invoked s i Key Old Result (store (heap w) (State w) Key Result) (State w) (heap w') new"
    if "Key \<notin> LockedKeys w" "\<not> rawequal Result Old"
      "notifiable fuel (w\<lparr>heap := store (heap w) (State w) Key Result\<rparr>)"
    using Update_calls[OF that(1) e _ that(3) reg(3)] that(2) assms(3) reg(4) by simp
  have c: "\<exists>r w'. Increment fuel Key Amount w = Some (r, w') \<and> called w' = called w"
    if "Key \<in> LockedKeys w \<or> (\<forall>m. Old \<noteq> VNum m)"
    using Increment_quiet[of Key w fuel Amount] that assms(3) by simp
  have d: "\<exists>w' new. Increment fuel Key Amount w = Some (Old, w') \<and> called w' = called w @ new \<and>
           invoked s i Key Old Summed (store (heap w) (State w) Key Summed) (State w) (heap w') new"
    if "Key \<notin> LockedKeys w" "Old = VNum n"
      "notifiable fuel (w\<lparr>heap := store (heap w) (State w) Key Summed\<rparr>)"
    using Increment_calls[OF that(1) _ e2 that(3) reg(3)] that(2) assms(3) reg(4) by simp
  from reg(1,2,4) a b c d show ?thesis by blast
qed

text \<open>
  The example crate is made by subscribing to \<^verbatim>\<open>Inv\<close> (connection 0) and then to the whole
  store (connection 1). \<^verbatim>\<open>Update("Inv", table 2)\<close> calls connection 0 with table 2 and
  table 1; \<^verbatim>\<open>Update("Gold", 4)\<close> and \<^verbatim>\<open>Increment("Gold", 5)\<close> do not call it, and call
  connection 1 with the new tables 7 (after) and 5 (before, with \<^verbatim>\<open>Gold\<close> at 10).
  \<^verbatim>\<open>Update("Gold", 50)\<close>, which resolves to the current 10, and \<^verbatim>\<open>Increment("Inv", 5)\<close>
  call nobody.
\<close>

theorem subscriptions_witness:
  "OnChange (Scoped ''Inv'') bare_crate = (0, half_crate) \<and>
   run 2 [OpOnChange Global] half_crate = Some inv_crate \<and>
   Connections inv_crate ! 0 = Scoped ''Inv'' \<and>
   (\<exists>w'. Update 2 ''Inv'' (VRef 2) inv_crate = Some (VRef 1, w') \<and>
      filter (\<lambda>e. fst e = 0) (called w') = [(0, VRef 2, VRef 1)]) \<and>
   (\<exists>w'. Update 2 ''Gold'' (VNum 4) inv_crate = Some (VNum 10, w') \<and>
      filter (\<lambda>e. fst e = 0) (called w') = []) \<and>
   (\<exists>w'. Increment 2 ''Gold'' 5 inv_crate = Some (VNum 10, w') \<and>
      filter (\<lambda>e. fst e = 0) (called w') = []) \<and>
   (\<exists>r w'. Update 2 ''Gold'' (VNum 50) inv_crate = Some (r, w') \<and> called w' = []) \<and>
   (\<exists>r w'. Increment 2 ''Inv'' 5 inv_crate = Some (r, w') \<and> called w' = []) \<and>
   OnChange Global half_crate = (1, inv_crate) \<and>
   run 2 [] inv_crate = Some inv_crate \<and>
   Connections inv_crate ! 1 = Global \<and>
   (\<exists>w' t. Update 2 ''Gold'' (VNum 4) inv_crate = Some (VNum 10, w') \<and>
      called w' = [(1, VRef 7, VRef 5)] \<and>
      snapshots 5 (heap w') ''Gold'' (VNum 10) t 7 5 \<and>
      load (heap w') 7 ''Gold'' = VNum 4 \<and> load (heap w') 5 ''Gold'' = VNum 10) \<and>
   (\<exists>w' t. Increment 2 ''Gold'' 5 inv_crate = Some (VNum 10, w') \<and>
      called w' = [(1, VRef 7, VRef 5)] \<and>
      snapshots 5 (heap w') ''Gold'' (VNum 10) t 7 5)"
proof -
  have on1: "OnChange (Scoped ''Inv'') bare_crate = (0, half_crate)"
    by (simp add: OnChange_def bare_crate_def half_crate_def)
  have run1: "run 2 [OpOnChange Global] half_crate = Some inv_crate"
    by (simp add: OnChange_def half_crate_def inv_crate_def)
  have on2: "OnChange Global half_crate = (1, inv_crate)"
    by (simp add: OnChange_def half_crate_def inv_crate_def)
  have run2: "run 2 [] inv_crate = Some inv_crate" by simp
  have f: "LockedKeys inv_crate = {}" "called inv_crate = []"
    "MiddlewareMap inv_crate ''Inv'' = None" "MiddlewareMap inv_crate ''Gold'' = Some clamp_mw"
    "Connections inv_crate ! 0 = Scoped ''Inv''" "Connections inv_crate ! 1 = Global"
    "length (heap inv_crate) = 5"
    by (simp_all add: inv_crate_def inv_heap_def)
  have l: "load (heap inv_crate) (State inv_crate) ''Inv'' = VRef 1"
    "load (heap inv_crate) (State inv_crate) ''Gold'' = VNum 10"
    by (simp_all add: inv_crate_def inv_heap_def load_def cell_def tget_def)
  have cl: "clamp_mw (VNum 4) (VNum 10) = (VNum 4, 0)" "clamp_mw (VNum 50) (VNum 10) = (VNum 10, 0)"
    "clamp_mw (VNum 15) (VNum 10) = (VNum 10, 0)"
    by (simp_all add: clamp_mw_def)
  have n2: "notifiable 2 (inv_crate\<lparr>heap := store (heap inv_crate) (State inv_crate) ''Inv'' (VRef 2)\<rparr>)"
    unfolding notifiable_def
    by (auto simp: inv_crate_def inv_heap_def inv_tree_def bag_def store_def cell_def tset_def
        intro!: exI[of _ inv_tree])
  have n4: "notifiable 2 (inv_crate\<lparr>heap := store (heap inv_crate) (State inv_crate) ''Gold'' (VNum 4)\<rparr>)"
    unfolding notifiable_def
    by (auto simp: inv_crate_def inv_heap_def bag_def store_def cell_def tset_def
        intro!: exI[of _ "Node [(''Gold'', Leaf (VNum 4)), (''Inv'', Node [(''n'', Leaf (VNum 1))])]"])
  have s10: "store (heap inv_crate) (State inv_crate) ''Gold'' (VNum 10) = inv_heap"
    by (simp add: inv_crate_def inv_heap_def store_def cell_def tset_def)
  have n10: "notifiable 2 (inv_crate\<lparr>heap := store (heap inv_crate) (State inv_crate) ''Gold'' (VNum 10)\<rparr>)"
    unfolding s10 by (rule inv_crate_notifiable)
  have len: "length (store (heap inv_crate) (State inv_crate) ''Gold'' v) = 5" for v
    by (simp add: inv_crate_def inv_heap_def store_def)
  note a = subscriptions[where Key = "''Inv''" and Value = "VRef 2" and n = 0 and Amount = 5,
      OF on1 run1 refl refl refl]
  note b = subscriptions[where Key = "''Gold''" and Value = "VNum 4" and n = 10 and Amount = 5,
      OF on1 run1 refl refl refl]
  note c = subscriptions[where Key = "''Gold''" and Value = "VNum 50" and n = 10 and Amount = 5,
      OF on1 run1 refl refl refl]
  note d = subscriptions[where Key = "''Gold''" and Value = "VNum 4" and n = 10 and Amount = 5,
      OF on2 run2 refl refl refl]
  have p1: "\<exists>w'. Update 2 ''Inv'' (VRef 2) inv_crate = Some (VRef 1, w') \<and>
      filter (\<lambda>e. fst e = 0) (called w') = [(0, VRef 2, VRef 1)]"
    using a n2 by (auto simp: f l invoked_def)
  have p2: "\<exists>w'. Update 2 ''Gold'' (VNum 4) inv_crate = Some (VNum 10, w') \<and>
      filter (\<lambda>e. fst e = 0) (called w') = []"
    using b n4 by (auto simp: f l cl invoked_def)
  have p3: "\<exists>w'. Increment 2 ''Gold'' 5 inv_crate = Some (VNum 10, w') \<and>
      filter (\<lambda>e. fst e = 0) (called w') = []"
    using b n10 by (auto simp: f l cl invoked_def)
  have p4: "\<exists>r w'. Update 2 ''Gold'' (VNum 50) inv_crate = Some (r, w') \<and> called w' = []"
    using c by (auto simp: f l cl)
  have p5: "\<exists>r w'. Increment 2 ''Inv'' 5 inv_crate = Some (r, w') \<and> called w' = []"
    using a by (auto simp: f l)
  have u4: "map_option (\<lambda>(r, w). (called w, load (heap w) 7 ''Gold'', load (heap w) 5 ''Gold''))
       (Update 2 ''Gold'' (VNum 4) inv_crate) = Some ([(1, VRef 7, VRef 5)], VNum 4, VNum 10)"
    by (simp add: Update_def ExecuteMiddleware_def Fire_def Listener_def inv_crate_def
        inv_heap_def clamp_mw_def eval_simps)
  have i5: "map_option (\<lambda>(r, w). called w) (Increment 2 ''Gold'' 5 inv_crate)
       = Some [(1, VRef 7, VRef 5)]"
    by (simp add: Increment_def ExecuteMiddleware_def Fire_def Listener_def inv_crate_def
        inv_heap_def clamp_mw_def eval_simps)
  from d n4 obtain w' new t a b where
    q: "Update 2 ''Gold'' (VNum 4) inv_crate = Some (VNum 10, w')" "called w' = new"
      "filter (\<lambda>e. fst e = 1) new = [(1, VRef a, VRef b)]"
      "snapshots 5 (heap w') ''Gold'' (VNum 10) t a b"
    by (auto simp: f l cl len invoked_def)
  from q(1-3) u4 have "a = 7" "b = 5" "called w' = [(1, VRef 7, VRef 5)]"
    "load (heap w') 7 ''Gold'' = VNum 4" "load (heap w') 5 ''Gold'' = VNum 10"
    by auto
  with q have p6: "\<exists>w' t. Update 2 ''Gold'' (VNum 4) inv_crate = Some (VNum 10, w') \<and>
      called w' = [(1, VRef 7, VRef 5)] \<and>
      snapshots 5 (heap w') ''Gold'' (VNum 10) t 7 5 \<and>
      load (heap w') 7 ''Gold'' = VNum 4 \<and> load (heap w') 5 ''Gold'' = VNum 10"
    by blast
  from d n10 obtain w' new t a b where
    q: "Increment 2 ''Gold'' 5 inv_crate = Some (VNum 10, w')" "called w' = new"
      "filter (\<lambda>e. fst e = 1) new = [(1, VRef a, VRef b)]"
      "snapshots 5 (heap w') ''Gold'' (VNum 10) t a b"
    by (auto simp: f l cl len invoked_def)
  from q(1-3) i5 have "a = 7" "b = 5" "called w' = [(1, VRef 7, VRef 5)]"
    by auto
  with q have p7: "\<exists>w' t. Increment 2 ''Gold'' 5 inv_crate = Some (VNum 10, w') \<and>
      called w' = [(1, VRef 7, VRef 5)] \<and>
      snapshots 5 (heap w') ''Gold'' (VNum 10) t 7 5"
    by blast
  from on1 run1 f(5) p1 p2 p3 p4 p5 on2 run2 f(6) p6 p7 show ?thesis by blast
qed

text \<open>
  C10. \<^verbatim>\<open>Lock()\<close>, \<^verbatim>\<open>Unlock()\<close> and \<^verbatim>\<open>IsLocked()\<close> go through the keys that the state table
  has when they are called: \<^verbatim>\<open>Lock()\<close> adds exactly these keys to the lock set,
  \<^verbatim>\<open>Unlock()\<close> removes exactly these, and \<^verbatim>\<open>IsLocked()\<close> is true exactly when all of them
  are locked. After \<^verbatim>\<open>Overwrite\<close> they go through the keys of the new table.
\<close>

theorem whole_container_live_keys:
  "Lock None w = w\<lparr>LockedKeys := LockedKeys w \<union> set (keys_of (cell (heap w) (State w)))\<rparr> \<and>
   Unlock None w = w\<lparr>LockedKeys := LockedKeys w - set (keys_of (cell (heap w) (State w)))\<rparr> \<and>
   IsLocked None w = (set (keys_of (cell (heap w) (State w))) \<subseteq> LockedKeys w) \<and>
   LockedKeys (Lock None (Overwrite S w)) = LockedKeys w \<union> set (keys_of (cell (heap w) S)) \<and>
   LockedKeys (Unlock None (Overwrite S w)) = LockedKeys w - set (keys_of (cell (heap w) S)) \<and>
   IsLocked None (Overwrite S w) = (set (keys_of (cell (heap w) S)) \<subseteq> LockedKeys w)"
  by (simp add: Lock_all Unlock_all IsLocked_all_subset Overwrite_def)

text \<open>
  On the open crate \<^verbatim>\<open>Lock()\<close> locks \<^verbatim>\<open>Health\<close> and \<^verbatim>\<open>Name\<close>; after overwriting the
  state with \<^verbatim>\<open>{Score: 0}\<close> it locks \<^verbatim>\<open>Score\<close> alone.
\<close>

theorem whole_container_live_keys_witness:
  "Lock None score_crate = score_crate\<lparr>LockedKeys := {''Health'', ''Name''}\<rparr> \<and>
   LockedKeys (Lock None (Overwrite 2 score_crate)) = {''Score''} \<and>
   \<not> IsLocked None (Overwrite 2 score_crate)"
proof -
  have k1: "set (keys_of (cell (heap score_crate) (State score_crate))) = {''Health'', ''Name''}"
    by (simp add: score_crate_def open_crate_def cell_def keys_of_def paul_def)
  have k2: "set (keys_of (cell (heap score_crate) 2)) = {''Score''}"
    by (simp add: score_crate_def open_crate_def cell_def keys_of_def)
  have l: "LockedKeys score_crate = {}"
    by (simp add: score_crate_def open_crate_def)
  show ?thesis
    using whole_container_live_keys[of score_crate 2] unfolding k1 k2 l by simp
qed

end
